theory Spec2Isabelle
  imports Main
begin

section \<open>JavaScript values\<close>

text \<open>
  The values that travel through the callbacks of \<^verbatim>\<open>lib/git-reader.js\<close>. Strings are
  lists of 8-bit characters; a \<^verbatim>\<open>Buffer\<close> is kept apart from a string because an empty
  buffer is truthy and an empty string is not.
\<close>

datatype jsval =
    JUndefined
  | JNull
  | JFalse
  | JStr string
  | JBuf string
  | JArr "jsval list"
  | JObj "(string \<times> jsval) list"

text \<open>The test \<^verbatim>\<open>if (value)\<close>.\<close>

fun truthy :: "jsval \<Rightarrow> bool" where
  "truthy JUndefined = False"
| "truthy JNull = False"
| "truthy JFalse = False"
| "truthy (JStr s) = (s \<noteq> [])"
| "truthy (JBuf b) = True"
| "truthy (JArr xs) = True"
| "truthy (JObj kvs) = True"

datatype errkind = PlainError | TypeError | ReferenceError | SyntaxError | FsError

text \<open>
  An error object: its constructor, its \<^verbatim>\<open>message\<close>, and whether \<^verbatim>\<open>errno\<close> has been set
  to \<^verbatim>\<open>process.ENOENT\<close>.
\<close>

datatype jserr = JErr (kind: errkind) (message: string) (enoent: bool)

text \<open>\<^verbatim>\<open>Array.prototype.join\<close> on an array of strings.\<close>

fun join :: "string \<Rightarrow> string list \<Rightarrow> string" where
  "join sep [] = []"
| "join sep [x] = x"
| "join sep (x # y # ys) = x @ sep @ join sep (y # ys)"

section \<open>The decorator \<^verbatim>\<open>safe\<close>\<close>

text \<open>
  \<^verbatim>\<open>var CACHE_LIFE = [36300000, 100]\<close>, and \<^verbatim>\<open>CACHE_LIFE[0] = 100\<close> when
  \<^verbatim>\<open>process.env.NODE_ENV === 'test'\<close>. The parameter says whether the process runs under test.
\<close>

definition CACHE_LIFE :: "bool \<Rightarrow> nat list" where
  "CACHE_LIFE test_env = (if test_env then [100, 100] else [36300000, 100])"

text \<open>
  Callbacks of callers are opaque and named by numbers. The state of one decorated function:
  the two objects \<^verbatim>\<open>cache\<close> and \<^verbatim>\<open>queue\<close> of the closure, the waiter arrays that
  \<^verbatim>\<open>queue[key]\<close> and the variable \<^verbatim>\<open>localQueue\<close> of a completion closure both refer to
  (one array per started operation, named by the number of that operation), the completion
  closures handed to the wrapped function with the \<^verbatim>\<open>key\<close> and \<^verbatim>\<open>version\<close> they captured,
  the closures given to \<^verbatim>\<open>process.nextTick\<close>, the closures given to \<^verbatim>\<open>setTimeout\<close> with the
  time at which they are due, and the clock in milliseconds.
  A falsy \<^verbatim>\<open>queue[key]\<close> (\<^verbatim>\<open>undefined\<close> or \<^verbatim>\<open>false\<close>) is \<open>None\<close>.

  A completion closure does not run in one piece: its loop calls a waiter, and the waiter is
  code of the caller, which may call the decorated function again or throw before it returns.
  \<open>running\<close> is the stack of the completion closures that are inside their loop, each waiting
  for the waiter it called, the innermost first, each with the operation it belongs to and its
  two arguments.
\<close>

record safe_state =
  cache :: "string \<Rightarrow> jsval"
  queue :: "string \<Rightarrow> nat option"
  arrays :: "nat \<Rightarrow> nat list"
  ops :: "nat \<Rightarrow> (string \<times> string) option"
  nextop :: nat
  ticks :: "(nat \<times> string) list"
  timers :: "(nat \<times> string) list"
  now :: nat
  running :: "(nat \<times> jserr option \<times> jsval) list"

definition safe_init :: safe_state where
  "safe_init = \<lparr> cache = (\<lambda>k. JUndefined), queue = (\<lambda>k. None), arrays = (\<lambda>q. []),
     ops = (\<lambda>n. None), nextop = 0, ticks = [], timers = [], now = 0, running = [] \<rparr>"

text \<open>
  What the environment does to a decorated function: a caller calls it with a version, further
  arguments and a callback; the wrapped function calls the completion closure it was given;
  the waiter that the innermost running completion closure called returns, or throws; the
  event loop runs the next \<^verbatim>\<open>nextTick\<close> closure; time passes and the timers that come due
  run. A call of the decorated function may come at any moment, also from inside a waiter.
\<close>

datatype safe_event =
    Call string "string list" nat
  | Done nat "jserr option" jsval
  | Return
  | Throw jserr
  | Tick
  | Elapse nat

text \<open>
  What a step does to the outside: it applies the wrapped function to the arguments and the
  completion closure of a new operation, it calls a caller's callback with an error and a
  value, or it lets the exception of a waiter pass on to the code that called the completion
  closure.
\<close>

datatype action =
    Started nat "string list"
  | Called nat "jserr option" jsval
  | Raised jserr

definition valid_version :: "string \<Rightarrow> bool" where
  "valid_version version = (length version = 40 \<or> version = ''fs'')"

text \<open>The body of the function that \<^verbatim>\<open>safe\<close> returns (lines 79 to 127).\<close>

definition safe_call :: "string \<Rightarrow> string list \<Rightarrow> nat \<Rightarrow> safe_state \<Rightarrow> action list \<times> safe_state" where
  "safe_call version rest callback s =
     (let args = version # rest; key = join '':'' args in
      if \<not> (length version = 40 \<or> version = ''fs'') then
        ([Called callback (Some (JErr PlainError (''Invalid version '' @ version) False)) JUndefined], s)
      else if truthy (cache s key) then
        ([], s\<lparr>ticks := ticks s @ [(callback, key)]\<rparr>)
      else
        (case queue s key of
           Some q \<Rightarrow> ([], s\<lparr>arrays := (arrays s)(q := arrays s q @ [callback])\<rparr>)
         | None \<Rightarrow>
             ([Started (nextop s) args],
              s\<lparr>queue := (queue s)(key := Some (nextop s)),
                arrays := (arrays s)(nextop s := [callback]),
                ops := (ops s)(nextop s := Some (key, version)),
                nextop := Suc (nextop s)\<rparr>)))"

text \<open>
  The loop \<^verbatim>\<open>while (localQueue.length > 0) { cb = localQueue.shift(); cb.apply(null, arguments); }\<close>
  and line 123, for the innermost running completion closure, from the test of the loop on.
  With a waiter in the array, the closure takes the first one out and calls it, and then waits
  for it. With none, it sets \<^verbatim>\<open>queue[key] = false\<close> for the key that it captured, and is over.
  The array is the one that \<^verbatim>\<open>queue[key]\<close> refers to, so a waiter pushed while the loop runs
  is found by the next test.
\<close>

definition safe_loop :: "safe_state \<Rightarrow> action list \<times> safe_state" where
  "safe_loop s =
     (case running s of
        [] \<Rightarrow> ([], s)
      | (n, err, v) # rest \<Rightarrow>
          (case arrays s n of
             cb # localQueue \<Rightarrow> ([Called cb err v], s\<lparr>arrays := (arrays s)(n := localQueue)\<rparr>)
           | [] \<Rightarrow>
               (case ops s n of
                  None \<Rightarrow> ([], s\<lparr>running := rest\<rparr>)
                | Some (key, version) \<Rightarrow>
                    ([], s\<lparr>queue := (queue s)(key := None), running := rest\<rparr>))))"

text \<open>
  The completion closure of operation \<open>n\<close> (lines 104 to 124), from its call to the first
  waiter that it calls: a truthy value is stored and its timer set, and the loop begins.
\<close>

definition safe_done :: "bool \<Rightarrow> nat \<Rightarrow> jserr option \<Rightarrow> jsval \<Rightarrow> safe_state \<Rightarrow> action list \<times> safe_state" where
  "safe_done test_env n err v s =
     (case ops s n of
        None \<Rightarrow> ([], s)
      | Some (key, version) \<Rightarrow>
          (let s1 = (if truthy v then
                       s\<lparr>cache := (cache s)(key := v),
                         timers := timers s @
                           [(now s + (if version = ''fs'' then CACHE_LIFE test_env ! 1
                                      else CACHE_LIFE test_env ! 0), key)]\<rparr>
                     else s)
           in safe_loop (s1\<lparr>running := (n, err, v) # running s1\<rparr>)))"

text \<open>
  The waiter that the innermost running completion closure called returns: the loop goes on.
  Or it throws: nothing in the closure catches, so the closure is left at line 120, the
  waiters still in the array are not called and line 123 is not reached.
\<close>

definition safe_return :: "safe_state \<Rightarrow> action list \<times> safe_state" where
  "safe_return s = safe_loop s"

definition safe_throw :: "jserr \<Rightarrow> safe_state \<Rightarrow> action list \<times> safe_state" where
  "safe_throw e s =
     (case running s of
        [] \<Rightarrow> ([], s)
      | f # rest \<Rightarrow> ([Raised e], s\<lparr>running := rest\<rparr>))"

text \<open>The closure \<^verbatim>\<open>function () { callback(null, cache[key]); }\<close> of line 91.\<close>

definition safe_tick :: "safe_state \<Rightarrow> action list \<times> safe_state" where
  "safe_tick s =
     (case ticks s of
        [] \<Rightarrow> ([], s)
      | (callback, key) # rest \<Rightarrow> ([Called callback None (cache s key)], s\<lparr>ticks := rest\<rparr>))"

text \<open>
  The clock advances by \<open>d\<close> milliseconds and every timer that is due by then runs its closure
  \<^verbatim>\<open>function () { cache[key] = false; }\<close>.
\<close>

fun expire :: "(nat \<times> string) list \<Rightarrow> (string \<Rightarrow> jsval) \<Rightarrow> (string \<Rightarrow> jsval)" where
  "expire [] c = c"
| "expire ((due, key) # ts) c = expire ts (c(key := JFalse))"

definition safe_elapse :: "nat \<Rightarrow> safe_state \<Rightarrow> action list \<times> safe_state" where
  "safe_elapse d s =
     ([], s\<lparr>now := now s + d,
            cache := expire (filter (\<lambda>t. fst t \<le> now s + d) (timers s)) (cache s),
            timers := filter (\<lambda>t. \<not> fst t \<le> now s + d) (timers s)\<rparr>)"

fun safe_step :: "bool \<Rightarrow> safe_event \<Rightarrow> safe_state \<Rightarrow> action list \<times> safe_state" where
  "safe_step test_env (Call version rest callback) s = safe_call version rest callback s"
| "safe_step test_env (Done n err v) s = safe_done test_env n err v s"
| "safe_step test_env Return s = safe_return s"
| "safe_step test_env (Throw e) s = safe_throw e s"
| "safe_step test_env Tick s = safe_tick s"
| "safe_step test_env (Elapse d) s = safe_elapse d s"

fun safe_run :: "bool \<Rightarrow> safe_event list \<Rightarrow> safe_state \<Rightarrow> action list \<times> safe_state" where
  "safe_run test_env [] s = ([], s)"
| "safe_run test_env (e # es) s =
     (let (out1, s1) = safe_step test_env e s; (out2, s2) = safe_run test_env es s1
      in (out1 @ out2, s2))"

subsection \<open>Vocabulary for the properties of \<^verbatim>\<open>safe\<close>\<close>

text \<open>
  An orderly history: every run of a completion closure is the first run of the closure of an
  operation that has been started. The wrapped function keeps the usual contract of a Node
  callback: it calls back at most once. The list holds the operations that have completed.
\<close>

fun orderly :: "bool \<Rightarrow> nat list \<Rightarrow> safe_state \<Rightarrow> safe_event list \<Rightarrow> bool" where
  "orderly t D s [] = True"
| "orderly t D s (Done n err v # es) =
     (ops s n \<noteq> None \<and> n \<notin> set D \<and> orderly t (n # D) (snd (safe_step t (Done n err v) s)) es)"
| "orderly t D s (e # es) = orderly t D (snd (safe_step t e s)) es"

fun dones :: "safe_event list \<Rightarrow> nat list" where
  "dones [] = []"
| "dones (Done n err v # es) = n # dones es"
| "dones (e # es) = dones es"

text \<open>The callback of a call for key \<open>k\<close> that passes the test of the version.\<close>

fun waiting :: "string \<Rightarrow> safe_event \<Rightarrow> nat list" where
  "waiting k (Call version rest callback) =
     (if valid_version version \<and> join '':'' (version # rest) = k then [callback] else [])"
| "waiting k (Done n err v) = []"
| "waiting k Return = []"
| "waiting k (Throw e) = []"
| "waiting k Tick = []"
| "waiting k (Elapse d) = []"

text \<open>The operations that a list of actions starts for key \<open>k\<close>.\<close>

fun starts :: "string \<Rightarrow> action list \<Rightarrow> nat list" where
  "starts k [] = []"
| "starts k (Started n args # out) = (if join '':'' args = k then n # starts k out else starts k out)"
| "starts k (Called cb err v # out) = starts k out"
| "starts k (Raised e # out) = starts k out"

text \<open>The event runs a completion closure that captured key \<open>k\<close>.\<close>

fun completes :: "safe_state \<Rightarrow> string \<Rightarrow> safe_event \<Rightarrow> bool" where
  "completes s k (Done n err v) = (case ops s n of Some (k', version) \<Rightarrow> k' = k | None \<Rightarrow> False)"
| "completes s k (Call version rest callback) = False"
| "completes s k Return = False"
| "completes s k (Throw e) = False"
| "completes s k Tick = False"
| "completes s k (Elapse d) = False"

fun quiet :: "bool \<Rightarrow> string \<Rightarrow> safe_state \<Rightarrow> safe_event list \<Rightarrow> bool" where
  "quiet t k s [] = True"
| "quiet t k s (e # es) = (\<not> completes s k e \<and> quiet t k (snd (safe_step t e s)) es)"

text \<open>
  The events that belong to the waiters of one run of the loop: calls of the decorated
  function and returns. \<open>during d t s es\<close> says that the events \<open>es\<close>, from state \<open>s\<close> on, are of
  that kind and that each of them finds the completion closure at depth \<open>d\<close> of the stack still
  in its loop. \<open>returns\<close> counts the returns, and \<open>returned\<close> collects what the loop does at
  them.
\<close>

fun waiter_event :: "safe_event \<Rightarrow> bool" where
  "waiter_event (Call version rest callback) = True"
| "waiter_event Return = True"
| "waiter_event (Done n err v) = False"
| "waiter_event (Throw e) = False"
| "waiter_event Tick = False"
| "waiter_event (Elapse d) = False"

fun during :: "nat \<Rightarrow> bool \<Rightarrow> safe_state \<Rightarrow> safe_event list \<Rightarrow> bool" where
  "during d t s [] = True"
| "during d t s (e # es) =
     (length (running s) = Suc d \<and> waiter_event e \<and> during d t (snd (safe_step t e s)) es)"

fun returns :: "safe_event list \<Rightarrow> nat" where
  "returns [] = 0"
| "returns (Return # es) = Suc (returns es)"
| "returns (e # es) = returns es"

fun returned :: "bool \<Rightarrow> safe_state \<Rightarrow> safe_event list \<Rightarrow> action list" where
  "returned t s [] = []"
| "returned t s (Return # es) =
     fst (safe_step t Return s) @ returned t (snd (safe_step t Return s)) es"
| "returned t s (e # es) = returned t (snd (safe_step t e s)) es"

text \<open>
  The callbacks that calls for key \<open>k\<close> add to the array of the key while the loop of a
  completion with value \<open>v\<close> runs: with a truthy value there are none, because the value is in
  the cache by then and the calls are answered from it.
\<close>

definition pushes :: "string \<Rightarrow> jsval \<Rightarrow> safe_event list \<Rightarrow> nat list" where
  "pushes k v es = (if truthy v then [] else concat (map (waiting k) es))"

text \<open>
  The completion closure of operation \<open>n\<close>, which captured key \<open>k\<close>, is the innermost one
  running, above the closures \<open>base\<close>: the queue still holds its array under \<open>k\<close> and under
  no other key, and the key has a cached value if and only if the closure was called with a
  truthy value.
\<close>

definition looping ::
  "string \<Rightarrow> nat \<Rightarrow> jserr option \<Rightarrow> jsval \<Rightarrow> (nat \<times> jserr option \<times> jsval) list \<Rightarrow> safe_state \<Rightarrow> bool" where
  "looping k n err v base s = (running s = (n, err, v) # base \<and> queue s k = Some n
      \<and> (\<exists>ver. ops s n = Some (k, ver)) \<and> n < nextop s
      \<and> (\<forall>k'. k' \<noteq> k \<longrightarrow> queue s k' \<noteq> Some n)
      \<and> truthy (cache s k) = truthy v)"

text \<open>
  Operation \<open>n\<close> is in flight for key \<open>k\<close>: it owns the waiter array of the key, the key has no
  cached value, and no completion closure for the key is running.
\<close>

definition in_flight :: "string \<Rightarrow> nat \<Rightarrow> safe_state \<Rightarrow> bool" where
  "in_flight k n s = (queue s k = Some n \<and> (\<exists>v. ops s n = Some (k, v)) \<and> n < nextop s
      \<and> \<not> truthy (cache s k) \<and> (\<forall>k'. k' \<noteq> k \<longrightarrow> queue s k' \<noteq> Some n)
      \<and> (\<forall>f \<in> set (running s). \<forall>v. ops s (fst f) \<noteq> Some (k, v)))"

text \<open>
  The invariants of orderly histories, for the set \<open>D\<close> of the operations whose completion
  closure has been called: a waiter array in the queue belongs to an operation with that key,
  and while that operation has not completed the key has no cached value; every operation that
  has not completed is registered in the queue under its key; a key has a pending timer only
  while it has a cached value, and then only one; the running completion closures belong to
  different operations, which have completed and are still registered in the queue.
\<close>

definition inv_queue :: "nat set \<Rightarrow> safe_state \<Rightarrow> bool" where
  "inv_queue D s = (\<forall>k q. queue s k = Some q \<longrightarrow>
      (\<exists>v. ops s q = Some (k, v)) \<and> (q \<notin> D \<longrightarrow> \<not> truthy (cache s k)))"

definition inv_ops :: "nat set \<Rightarrow> safe_state \<Rightarrow> bool" where
  "inv_ops D s = ((\<forall>n k v. ops s n = Some (k, v) \<longrightarrow> n < nextop s \<and> (n \<notin> D \<longrightarrow> queue s k = Some n))
      \<and> (\<forall>n. n \<in> D \<longrightarrow> n < nextop s))"

definition inv_timers :: "safe_state \<Rightarrow> bool" where
  "inv_timers s = (distinct (map snd (timers s))
      \<and> (\<forall>k. \<not> truthy (cache s k) \<longrightarrow> k \<notin> snd ` set (timers s)))"

definition inv_running :: "nat set \<Rightarrow> safe_state \<Rightarrow> bool" where
  "inv_running D s = (distinct (map fst (running s))
      \<and> (\<forall>f \<in> set (running s). fst f \<in> D
            \<and> (\<exists>k v. ops s (fst f) = Some (k, v) \<and> queue s k = Some (fst f))))"

definition safe_inv :: "nat set \<Rightarrow> safe_state \<Rightarrow> bool" where
  "safe_inv D s = (inv_queue D s \<and> inv_ops D s \<and> inv_timers s \<and> inv_running D s)"



text \<open>The version tags of the specification: forty lowercase hexadecimal digits.\<close>

definition is_hex_hash :: "string \<Rightarrow> bool" where
  "is_hex_hash v = (length v = 40 \<and> list_all (\<lambda>c. c \<in> set ''0123456789abcdef'') v)"

section \<open>Regular expressions\<close>

text \<open>
  The fragment of JavaScript's regular expressions that \<^verbatim>\<open>lib/git-reader.js\<close> uses: literal
  characters, \<^verbatim>\<open>.\<close>, character classes given by ranges, the anchors \<^verbatim>\<open>^\<close> and \<^verbatim>\<open>$\<close>,
  sequence, alternation, the greedy star and capturing groups. \<^verbatim>\<open>r+\<close> is \<open>Seq r (Star r)\<close> and
  \<^verbatim>\<open>r{n}\<close> is \<open>n\<close> copies of \<open>r\<close>.
\<close>

datatype rx =
    Lit char
  | Dot
  | Cls bool "(char \<times> char) list"
  | Bol
  | Eol
  | Eps
  | Seq rx rx
  | Alt rx rx
  | Star rx
  | Grp nat rx

text \<open>Line terminators among 8-bit characters: line feed and carriage return.\<close>

definition is_lt :: "char \<Rightarrow> bool" where
  "is_lt c = (c = CHR 0x0A \<or> c = CHR 0x0D)"

definition in_ranges :: "(char \<times> char) list \<Rightarrow> char \<Rightarrow> bool" where
  "in_ranges rs c =
     list_ex (\<lambda>r. (of_char (fst r) :: nat) \<le> of_char c \<and> (of_char c :: nat) \<le> of_char (snd r)) rs"

text \<open>
  A state of the matcher: the captures made so far (the latest first), the character before the
  current position (\<open>None\<close> at the start of the input), and the rest of the input. The matcher
  returns the states in which a match of the expression can end, in the order in which a
  backtracking matcher tries them. An iteration of a star that consumes nothing is not
  tried again.
\<close>

type_synonym mstate = "(nat \<times> string) list \<times> char option \<times> string"

fun rx_match :: "bool \<Rightarrow> rx \<Rightarrow> mstate \<Rightarrow> mstate list" where
  "rx_match ml (Lit c) (cp, pv, s) =
     (case s of [] \<Rightarrow> [] | x # t \<Rightarrow> if x = c then [(cp, Some x, t)] else [])"
| "rx_match ml Dot (cp, pv, s) =
     (case s of [] \<Rightarrow> [] | x # t \<Rightarrow> if is_lt x then [] else [(cp, Some x, t)])"
| "rx_match ml (Cls neg rs) (cp, pv, s) =
     (case s of [] \<Rightarrow> [] | x # t \<Rightarrow> if in_ranges rs x \<noteq> neg then [(cp, Some x, t)] else [])"
| "rx_match ml Bol (cp, pv, s) =
     (if (case pv of None \<Rightarrow> True | Some c \<Rightarrow> ml \<and> is_lt c) then [(cp, pv, s)] else [])"
| "rx_match ml Eol (cp, pv, s) =
     (if (case s of [] \<Rightarrow> True | x # t \<Rightarrow> ml \<and> is_lt x) then [(cp, pv, s)] else [])"
| "rx_match ml Eps z = [z]"
| "rx_match ml (Seq a b) z = concat (map (rx_match ml b) (rx_match ml a z))"
| "rx_match ml (Alt a b) z = rx_match ml a z @ rx_match ml b z"
| "rx_match ml (Star a) z =
     concat (map (\<lambda>z'. if length (snd (snd z')) < length (snd (snd z))
                          then rx_match ml (Star a) z' else [])
                 (rx_match ml a z)) @ [z]"
| "rx_match ml (Grp i a) (cp, pv, s) =
     map (\<lambda>(cp', pv', s'). ((i, take (length s - length s') s) # cp', pv', s'))
         (rx_match ml a (cp, pv, s))"

text \<open>
  \<^verbatim>\<open>RegExp.prototype.exec\<close> without the \<^verbatim>\<open>g\<close> flag: the leftmost position at which the
  expression matches, and there the first match in the order of backtracking. The result is
  the input from the start of the match on, and the final state of the matcher.
\<close>

fun rx_search :: "bool \<Rightarrow> rx \<Rightarrow> char option \<Rightarrow> string \<Rightarrow> (string \<times> mstate) option"
  and rx_pick :: "bool \<Rightarrow> rx \<Rightarrow> char option \<Rightarrow> string \<Rightarrow> mstate list \<Rightarrow> (string \<times> mstate) option" where
  "rx_search ml r pv s = rx_pick ml r pv s (rx_match ml r ([], pv, s))"
| "rx_pick ml r pv s (z # zs) = Some (s, z)"
| "rx_pick ml r pv [] [] = None"
| "rx_pick ml r pv (x # t) [] = rx_search ml r (Some x) t"

definition rx_exec :: "bool \<Rightarrow> rx \<Rightarrow> string \<Rightarrow> (string \<times> mstate) option" where
  "rx_exec ml r s = rx_search ml r None s"

definition rx_test :: "bool \<Rightarrow> rx \<Rightarrow> string \<Rightarrow> bool" where
  "rx_test ml r s = (rx_exec ml r s \<noteq> None)"

text \<open>Element \<open>i > 0\<close> of the array that \<^verbatim>\<open>String.prototype.match\<close> returns.\<close>

definition group :: "nat \<Rightarrow> string \<times> mstate \<Rightarrow> string option" where
  "group i r = map_of (fst (snd r)) i"

text \<open>\<^verbatim>\<open>s.replace(r, '')\<close> for an expression without the \<^verbatim>\<open>g\<close> flag.\<close>

definition rx_remove_first :: "bool \<Rightarrow> rx \<Rightarrow> string \<Rightarrow> string" where
  "rx_remove_first ml r s =
     (case rx_exec ml r s of
        None \<Rightarrow> s
      | Some (from, z) \<Rightarrow> take (length s - length from) s @ snd (snd z))"

text \<open>
  \<^verbatim>\<open>String.prototype.match\<close> with an expression that has the \<^verbatim>\<open>g\<close> flag: the matched texts, from
  left to right. After a match the search goes on where the match ended, and one character
  further when the match was empty. \<open>skip\<close> is the number of characters still covered by the
  last match.
\<close>

fun rx_scan :: "bool \<Rightarrow> rx \<Rightarrow> nat \<Rightarrow> char option \<Rightarrow> string \<Rightarrow> string list"
  and rx_found :: "bool \<Rightarrow> rx \<Rightarrow> char option \<Rightarrow> string \<Rightarrow> mstate list \<Rightarrow> string list" where
  "rx_scan ml r (Suc k) pv [] = []"
| "rx_scan ml r 0 pv [] = rx_found ml r pv [] (rx_match ml r ([], pv, []))"
| "rx_scan ml r (Suc k) pv (x # t) = rx_scan ml r k (Some x) t"
| "rx_scan ml r 0 pv (x # t) = rx_found ml r pv (x # t) (rx_match ml r ([], pv, x # t))"
| "rx_found ml r pv [] [] = []"
| "rx_found ml r pv [] (z # zs) = [[]]"
| "rx_found ml r pv (x # t) [] = rx_scan ml r 0 (Some x) t"
| "rx_found ml r pv (x # t) (z # zs) =
     take (length (x # t) - length (snd (snd z))) (x # t)
       # rx_scan ml r (length (x # t) - length (snd (snd z)) - 1) (Some x) t"

definition rx_match_all :: "bool \<Rightarrow> rx \<Rightarrow> string \<Rightarrow> string list" where
  "rx_match_all ml r s = rx_scan ml r 0 None s"

fun rep :: "nat \<Rightarrow> rx \<Rightarrow> rx" where
  "rep 0 r = Eps"
| "rep (Suc n) r = Seq r (rep n r)"

fun mk_seq :: "rx list \<Rightarrow> rx" where
  "mk_seq [] = Eps"
| "mk_seq (t # ts) = Seq t (mk_seq ts)"

fun mk_alt :: "rx list \<Rightarrow> rx" where
  "mk_alt [] = Eps"
| "mk_alt [a] = a"
| "mk_alt (a # b # bs) = Alt a (mk_alt (b # bs))"

definition plus :: "rx \<Rightarrow> rx" where
  "plus r = Seq r (Star r)"

subsection \<open>The constructor \<^verbatim>\<open>RegExp\<close>\<close>

text \<open>
  \<^verbatim>\<open>getBranchSha\<close> and \<^verbatim>\<open>getHeadSha\<close> build expressions from strings at run time, so the
  pattern syntax is part of what they compute. The parser reads a pattern from left to right
  with a stack of open groups. It covers the syntax above; a pattern that is malformed is a
  \<open>SyntaxErr\<close> (the constructor throws), and a pattern that uses anything else (a backslash, a
  group that starts with \<^verbatim>\<open>?\<close>, a lazy quantifier, a quantifier \<^verbatim>\<open>{n,m}\<close>) is \<open>Unsupported\<close>:
  nothing is said about it. A brace that does not form a quantifier is a literal, as in
  JavaScript.
\<close>

datatype compiled = Compiled rx | SyntaxErr | Unsupported

datatype qstate = NoAtom | Atom | Quantified

datatype cpend = PNone | PChar char | PDash char

datatype pmode = Normal | ClassOpen | InClass bool "(char \<times> char) list" cpend | InBrace string

record pstate =
  frames :: "(nat \<times> rx list \<times> rx list) list"
  alts :: "rx list"
  cur :: "rx list"
  quant :: qstate
  ngroups :: nat

datatype presult = Go pmode pstate | Stop compiled

definition close_alt :: "pstate \<Rightarrow> rx" where
  "close_alt st = mk_alt (rev (mk_seq (rev (cur st)) # alts st))"

definition push :: "rx \<Rightarrow> qstate \<Rightarrow> pstate \<Rightarrow> pstate" where
  "push t k st = st\<lparr>cur := t # cur st, quant := k\<rparr>"

fun push_lits :: "string \<Rightarrow> pstate \<Rightarrow> pstate" where
  "push_lits [] st = st"
| "push_lits (c # cs) st = push_lits cs (push (Lit c) Atom st)"

definition quantify :: "(rx \<Rightarrow> rx) \<Rightarrow> pstate \<Rightarrow> presult" where
  "quantify f st =
     (case quant st of
        Atom \<Rightarrow> (case cur st of [] \<Rightarrow> Stop SyntaxErr
                  | t # ts \<Rightarrow> Go Normal (st\<lparr>cur := f t # ts, quant := Quantified\<rparr>))
      | Quantified \<Rightarrow> Stop SyntaxErr
      | NoAtom \<Rightarrow> Stop SyntaxErr)"

definition pnormal :: "pstate \<Rightarrow> char \<Rightarrow> presult" where
  "pnormal st c =
     (if c = CHR ''('' then
        Go Normal (st\<lparr>frames := (Suc (ngroups st), alts st, cur st) # frames st,
                     alts := [], cur := [], quant := NoAtom, ngroups := Suc (ngroups st)\<rparr>)
      else if c = CHR '')'' then
        (case frames st of
           [] \<Rightarrow> Stop SyntaxErr
         | (i, a, k) # fs \<Rightarrow>
             Go Normal (st\<lparr>frames := fs, alts := a, cur := Grp i (close_alt st) # k, quant := Atom\<rparr>))
      else if c = CHR ''|'' then
        Go Normal (st\<lparr>alts := mk_seq (rev (cur st)) # alts st, cur := [], quant := NoAtom\<rparr>)
      else if c = CHR ''*'' then quantify Star st
      else if c = CHR ''+'' then quantify plus st
      else if c = CHR ''?'' then
        (if quant st = Quantified
            \<or> (quant st = NoAtom \<and> cur st = [] \<and> alts st = [] \<and> frames st \<noteq> [])
         then Stop Unsupported else quantify (\<lambda>t. Alt t Eps) st)
      else if c = CHR ''.'' then Go Normal (push Dot Atom st)
      else if c = CHR ''^'' then Go Normal (push Bol NoAtom st)
      else if c = CHR ''$'' then Go Normal (push Eol NoAtom st)
      else if c = CHR ''['' then Go ClassOpen st
      else if c = CHR ''{'' then Go (InBrace []) st
      else if c = CHR 0x5C then Stop Unsupported
      else Go Normal (push (Lit c) Atom st))"

fun flush_pend :: "cpend \<Rightarrow> (char \<times> char) list" where
  "flush_pend PNone = []"
| "flush_pend (PChar c) = [(c, c)]"
| "flush_pend (PDash c) = [(c, c), (CHR ''-'', CHR ''-'')]"

definition pclass :: "bool \<Rightarrow> (char \<times> char) list \<Rightarrow> cpend \<Rightarrow> pstate \<Rightarrow> char \<Rightarrow> presult" where
  "pclass neg rs pend st c =
     (if c = CHR '']'' then Go Normal (push (Cls neg (rs @ flush_pend pend)) Atom st)
      else if c = CHR 0x5C then Stop Unsupported
      else (case pend of
              PNone \<Rightarrow> Go (InClass neg rs (PChar c)) st
            | PChar a \<Rightarrow> if c = CHR ''-'' then Go (InClass neg rs (PDash a)) st
                         else Go (InClass neg (rs @ [(a, a)]) (PChar c)) st
            | PDash a \<Rightarrow> if (of_char a :: nat) \<le> of_char c
                         then Go (InClass neg (rs @ [(a, c)]) PNone) st
                         else Stop SyntaxErr))"

definition digit :: "char \<Rightarrow> bool" where
  "digit c = ((of_char CHR ''0'' :: nat) \<le> of_char c \<and> (of_char c :: nat) \<le> of_char CHR ''9'')"

fun number :: "string \<Rightarrow> nat \<Rightarrow> nat" where
  "number [] n = n"
| "number (d # ds) n = number ds (10 * n + (of_char d - of_char CHR ''0''))"

fun pstep :: "pmode \<Rightarrow> pstate \<Rightarrow> char \<Rightarrow> presult" where
  "pstep Normal st c = pnormal st c"
| "pstep ClassOpen st c =
     (if c = CHR ''^'' then Go (InClass True [] PNone) st else pclass False [] PNone st c)"
| "pstep (InClass neg rs pend) st c = pclass neg rs pend st c"
| "pstep (InBrace ds) st c =
     (if digit c then Go (InBrace (ds @ [c])) st
      else if c = CHR ''}'' \<and> ds \<noteq> [] then quantify (rep (number ds 0)) st
      else if c = CHR '','' \<and> ds \<noteq> [] then Stop Unsupported
      else pnormal (push_lits (CHR ''{'' # ds) st) c)"

fun pfinish :: "pmode \<Rightarrow> pstate \<Rightarrow> compiled" where
  "pfinish Normal st = (if frames st = [] then Compiled (close_alt st) else SyntaxErr)"
| "pfinish (InBrace ds) st =
     (if frames st = [] then Compiled (close_alt (push_lits (CHR ''{'' # ds) st)) else SyntaxErr)"
| "pfinish ClassOpen st = SyntaxErr"
| "pfinish (InClass neg rs pend) st = SyntaxErr"

fun parse :: "pmode \<Rightarrow> pstate \<Rightarrow> string \<Rightarrow> compiled"
  and pcont :: "presult \<Rightarrow> string \<Rightarrow> compiled" where
  "parse md st [] = pfinish md st"
| "parse md st (c # cs) = pcont (pstep md st c) cs"
| "pcont (Go md st) cs = parse md st cs"
| "pcont (Stop r) cs = r"

definition RegExp :: "string \<Rightarrow> compiled" where
  "RegExp src = parse Normal \<lparr>frames = [], alts = [], cur = [], quant = NoAtom, ngroups = 0\<rparr> src"

subsection \<open>The expressions of the source\<close>

definition lits :: "string \<Rightarrow> rx list" where
  "lits s = map Lit s"

text \<open>\<^verbatim>\<open>[a-f0-9]\<close>, \<^verbatim>\<open>[0-9a-f]\<close>, \<^verbatim>\<open>[^']\<close> and \<^verbatim>\<open>[\w!@#$%+=-]\<close>.\<close>

definition hexd :: rx where
  "hexd = Cls False [(CHR ''a'', CHR ''f''), (CHR ''0'', CHR ''9'')]"

definition hexd' :: rx where
  "hexd' = Cls False [(CHR ''0'', CHR ''9''), (CHR ''a'', CHR ''f'')]"

definition not_quote :: rx where
  "not_quote = Cls True [(CHR 0x27, CHR 0x27)]"

definition name_char :: rx where
  "name_char = Cls False [(CHR ''A'', CHR ''Z''), (CHR ''a'', CHR ''z''), (CHR ''0'', CHR ''9''),
     (CHR ''_'', CHR ''_''), (CHR ''!'', CHR ''!''), (CHR ''@'', CHR ''@''), (CHR ''#'', CHR ''#''),
     (CHR ''$'', CHR ''$''), (CHR ''%'', CHR ''%''), (CHR ''+'', CHR ''+''), (CHR ''='', CHR ''=''),
     (CHR ''-'', CHR ''-'')]"

text \<open>
  Line 36:
  \<^verbatim>\<open>/fatal: (Path '([^']+)' does not exist in '([0-9a-f]{40})'|ambiguous argument '([^']+)': unknown revision or path not in the working tree.)/\<close>
\<close>

definition gitENOENT :: rx where
  "gitENOENT = mk_seq (lits ''fatal: '' @
     [Grp 1 (Alt
        (mk_seq (lits ''Path '' @ [Lit (CHR 0x27), Grp 2 (mk_seq [plus not_quote]), Lit (CHR 0x27)]
                 @ lits '' does not exist in '' @ [Lit (CHR 0x27), Grp 3 (mk_seq [rep 40 hexd']),
                   Lit (CHR 0x27)]))
        (mk_seq (lits ''ambiguous argument '' @ [Lit (CHR 0x27), Grp 4 (mk_seq [plus not_quote]), Lit (CHR 0x27)]
                 @ lits '': unknown revision or path not in the working tree'' @ [Dot])))])"

text \<open>Line 400: \<^verbatim>\<open>/^tree .*\n\n/\<close>. Line 410: \<^verbatim>\<open>/\/$/\<close>.\<close>

definition tree_header :: rx where
  "tree_header = mk_seq ([Bol] @ lits ''tree '' @ [Star Dot, Lit (CHR 0x0A), Lit (CHR 0x0A)])"

definition ends_slash :: rx where
  "ends_slash = mk_seq [Lit CHR ''/'', Eol]"

text \<open>Line 199: \<^verbatim>\<open>/^ref: (.*)\n$/\<close>. Line 226: \<^verbatim>\<open>/([a-f0-9]{40})\n/\<close>.\<close>

definition head_ref :: rx where
  "head_ref = mk_seq ([Bol] @ lits ''ref: '' @ [Grp 1 (mk_seq [Star Dot]), Lit (CHR 0x0A), Eol])"

definition sha_line :: rx where
  "sha_line = mk_seq [Grp 1 (mk_seq [rep 40 hexd]), Lit (CHR 0x0A)]"

text \<open>
  Lines 495 and 496: \<^verbatim>\<open>/^(heads|remotes|tags)\/(.+)/\<close> and
  \<^verbatim>\<open>/^([\w!@#$%+=-]+)\/([\w!@#$%+=-]+)$/\<close>.
\<close>

definition full_path :: rx where
  "full_path = mk_seq [Bol,
     Grp 1 (Alt (mk_seq (lits ''heads'')) (Alt (mk_seq (lits ''remotes'')) (mk_seq (lits ''tags'')))),
     Lit CHR ''/'', Grp 2 (mk_seq [plus Dot])]"

definition remote_short :: rx where
  "remote_short = mk_seq [Bol, Grp 1 (mk_seq [plus name_char]), Lit CHR ''/'',
     Grp 2 (mk_seq [plus name_char]), Eol]"

text \<open>
  Lines 311 to 315: \<^verbatim>\<open>/^commit ([a-f0-9]{40})/\<close>, \<^verbatim>\<open>/\n\n([\s\S]*)/\<close>,
  \<^verbatim>\<open>/^[A-Z][a-z]*:.*$/gm\<close> and \<^verbatim>\<open>/^([A-Za-z]+):\s*(.*)$/\<close>. The class \<^verbatim>\<open>[\s\S]\<close> holds every
  character, and \<^verbatim>\<open>\s\<close> holds, among 8-bit characters, the tabulators, the line terminators,
  the form feed, the space and the no-break space.
\<close>

definition commit_line :: rx where
  "commit_line = mk_seq ([Bol] @ lits ''commit '' @ [Grp 1 (mk_seq [rep 40 hexd])])"

definition log_body :: rx where
  "log_body = mk_seq [Lit (CHR 0x0A), Lit (CHR 0x0A), Grp 1 (mk_seq [Star (Cls True [])])]"

definition header_line :: rx where
  "header_line = mk_seq [Bol, Cls False [(CHR ''A'', CHR ''Z'')], Star (Cls False [(CHR ''a'', CHR ''z'')]),
     Lit CHR '':'', Star Dot, Eol]"

definition white :: rx where
  "white = Cls False [(CHR 0x09, CHR 0x0D), (CHR 0x20, CHR 0x20), (CHR 0xA0, CHR 0xA0)]"

definition header_parts :: rx where
  "header_parts = mk_seq [Bol, Grp 1 (mk_seq [plus (Cls False [(CHR ''A'', CHR ''Z''), (CHR ''a'', CHR ''z'')])]),
     Lit CHR '':'', Star white, Grp 2 (mk_seq [Star Dot]), Eol]"

section \<open>The subprocess and the accessors\<close>

text \<open>
  What a function does with the callback it was given: it calls it with an error and a value,
  or it throws before it gets there.
\<close>

datatype outcome = Throws jserr | Calls "jserr option" jsval

text \<open>
  The second argument of \<^verbatim>\<open>gitExec\<close>, \<^verbatim>\<open>encoding\<close>: not given, \<^verbatim>\<open>null\<close>, a string, or (when a
  caller leaves the encoding out and passes its callback second) a function.
\<close>

datatype encarg = EncUndefined | EncNull | EncString string | EncFunction

text \<open>
  Modelled from the spec: \<^verbatim>\<open>Tools.join\<close> of \<^verbatim>\<open>lib/tools.js\<close>, which is not among the sources.
  The executor is to "collect all standard-output and standard-error bytes" and to "decode the
  collected output using the caller-specified encoding (or return raw bytes if no encoding is
  given)". The chunks are concatenated; with an encoding the result is a string, without one a
  buffer. The specification is silent about an encoding that is not a string: the parameter
  \<open>J\<close> is what \<^verbatim>\<open>Tools.join\<close> does then, a value or an exception.
\<close>

fun Tools_join :: "jserr + jsval \<Rightarrow> string list \<Rightarrow> encarg \<Rightarrow> jserr + jsval" where
  "Tools_join J chunks (EncString e) = Inr (JStr (concat chunks))"
| "Tools_join J chunks EncUndefined = Inr (JBuf (concat chunks))"
| "Tools_join J chunks EncNull = Inr (JBuf (concat chunks))"
| "Tools_join J chunks EncFunction = J"

text \<open>
  A call \<^verbatim>\<open>callback(err, value)\<close> where \<^verbatim>\<open>callback\<close> is the third parameter of \<^verbatim>\<open>gitExec\<close>:
  when no third argument was passed, the call throws a \<^verbatim>\<open>TypeError\<close>.
\<close>

definition call_callback :: "bool \<Rightarrow> jserr option \<Rightarrow> jsval \<Rightarrow> outcome" where
  "call_callback given err v =
     (if given then Calls err v else Throws (JErr TypeError ''callback is not a function'' False))"

text \<open>
  The listener of \<^verbatim>\<open>'close'\<close> in \<^verbatim>\<open>gitExec\<close> (lines 269 to 282). \<open>commands\<close> is the argument
  list after \<^verbatim>\<open>that._gitCommands.concat(commands)\<close>; \<open>exitCode\<close> is the code that the \<^verbatim>\<open>'exit'\<close>
  listener stored, \<open>None\<close> when the process was ended by a signal (\<^verbatim>\<open>null > 0\<close> is false);
  \<open>stdout\<close> and \<open>stderr\<close> are the chunks collected.
\<close>

definition gitExec_close ::
  "jserr + jsval \<Rightarrow> string list \<Rightarrow> encarg \<Rightarrow> bool \<Rightarrow> nat option \<Rightarrow> string list \<Rightarrow> string list \<Rightarrow> outcome" where
  "gitExec_close J commands encoding callback exitCode stdout stderr =
     (if (case exitCode of None \<Rightarrow> False | Some c \<Rightarrow> c > 0) then
        (let msg = ''git '' @ join '' '' commands @ [CHR 0x0A] @ concat stderr
         in call_callback callback (Some (JErr PlainError msg (rx_test False gitENOENT msg))) JUndefined)
      else
        (case Tools_join J stdout encoding of
           Inl e \<Rightarrow> Throws e
         | Inr v \<Rightarrow> call_callback callback None v))"

text \<open>
  What an accessor asks of the outside: a \<^verbatim>\<open>git\<close> subprocess with the arguments after the
  prefix \<^verbatim>\<open>_gitCommands\<close> and an encoding, a call of the decorated \<^verbatim>\<open>readFile\<close>, or a read of
  the working tree (whose completion no property below depends on; it is not embedded).
\<close>

datatype request =
    GitExec "string list" encarg
  | ReadFile string string string
  | FsRead string "string option"
  | FsReaddir string


text \<open>The function that \<^verbatim>\<open>Git.prototype.logFile\<close> decorates (lines 292 to 324).\<close>

definition logFile_op :: "string \<Rightarrow> string \<Rightarrow> request" where
  "logFile_op version path = GitExec [''log'', ''-z'', ''--summary'', version, ''--'', path] (EncString ''utf8'')"

text \<open>\<^verbatim>\<open>String.prototype.trim\<close>, and \<^verbatim>\<open>split\<close> at a character.\<close>

definition is_space :: "char \<Rightarrow> bool" where
  "is_space c = (c \<in> set [CHR 0x09, CHR 0x0A, CHR 0x0B, CHR 0x0C, CHR 0x0D, CHR 0x20, CHR 0xA0])"

definition trim :: "string \<Rightarrow> string" where
  "trim s = rev (dropWhile is_space (rev (dropWhile is_space s)))"

fun split_on :: "char \<Rightarrow> string \<Rightarrow> string \<Rightarrow> string list" where
  "split_on d acc [] = [rev acc]"
| "split_on d acc (c # cs) = (if c = d then rev acc # split_on d [] cs else split_on d (c # acc) cs)"

text \<open>
  \<^verbatim>\<open>toLowerCase\<close> on the letters that \<^verbatim>\<open>[A-Za-z]+\<close> admits, and the assignment \<^verbatim>\<open>obj[k] = v\<close> on
  an object given by its own properties in their order. (The keys assigned below are made of
  letters or of hexadecimal digits, so none is \<^verbatim>\<open>__proto__\<close>.)
\<close>

definition to_lower :: "char \<Rightarrow> char" where
  "to_lower c = (case map_of (zip ''ABCDEFGHIJKLMNOPQRSTUVWXYZ'' ''abcdefghijklmnopqrstuvwxyz'') c of
                   Some l \<Rightarrow> l | None \<Rightarrow> c)"

fun obj_set :: "string \<Rightarrow> jsval \<Rightarrow> (string \<times> jsval) list \<Rightarrow> (string \<times> jsval) list" where
  "obj_set k v [] = [(k, v)]"
| "obj_set k v ((k', v') # kvs) = (if k' = k then (k, v) # kvs else (k', v') # obj_set k v kvs)"

text \<open>
  Lines 310 to 320, which make the log object from a non-empty output. The output is split at
  the characters NUL. Of every entry: the hash after \<^verbatim>\<open>commit\<close> at its start, the text after the
  first empty line, trimmed, as \<^verbatim>\<open>message\<close>, and of every line that begins with a capitalised
  word and a colon the word in lower case with the rest of the line. Where a \<^verbatim>\<open>match\<close> finds
  nothing it returns \<^verbatim>\<open>null\<close>, and the access to \<^verbatim>\<open>null[1]\<close> or \<^verbatim>\<open>null.forEach\<close> throws a
  \<^verbatim>\<open>TypeError\<close>; nothing catches it.
\<close>

fun log_headers :: "string list \<Rightarrow> (string \<times> jsval) list \<Rightarrow> jserr + (string \<times> jsval) list" where
  "log_headers [] data = Inr data"
| "log_headers (line # lines) data =
     (case rx_exec False header_parts line of
        None \<Rightarrow> Inl (JErr TypeError ''Cannot read property 1 of null'' False)
      | Some matches \<Rightarrow>
          (case group 1 matches of
             None \<Rightarrow> Inl (JErr TypeError ''Cannot read property toLowerCase of undefined'' False)
           | Some name \<Rightarrow>
               log_headers lines
                 (obj_set (map to_lower name)
                    (case group 2 matches of None \<Rightarrow> JUndefined | Some rest \<Rightarrow> JStr rest) data)))"

definition log_entry :: "string \<Rightarrow> jserr + string \<times> jsval" where
  "log_entry entry =
     (case rx_exec False commit_line entry of
        None \<Rightarrow> Inl (JErr TypeError ''Cannot read property 1 of null'' False)
      | Some m1 \<Rightarrow>
          (case rx_exec False log_body entry of
             None \<Rightarrow> Inl (JErr TypeError ''Cannot read property 1 of null'' False)
           | Some m2 \<Rightarrow>
               (case group 1 m2 of
                  None \<Rightarrow> Inl (JErr TypeError ''Cannot read property trim of undefined'' False)
                | Some body \<Rightarrow>
                    (case rx_match_all True header_line entry of
                       [] \<Rightarrow> Inl (JErr TypeError ''Cannot read property forEach of null'' False)
                     | line # lines \<Rightarrow>
                         (case log_headers (line # lines) [(''message'', JStr (trim body))] of
                            Inl e \<Rightarrow> Inl e
                          | Inr data \<Rightarrow>
                              Inr (case group 1 m1 of None \<Rightarrow> ''undefined'' | Some commit \<Rightarrow> commit,
                                   JObj data))))))"

fun log_entries :: "string list \<Rightarrow> (string \<times> jsval) list \<Rightarrow> jserr + (string \<times> jsval) list" where
  "log_entries [] log = Inr log"
| "log_entries (entry # rest) log =
     (case log_entry entry of
        Inl e \<Rightarrow> Inl e
      | Inr (commit, data) \<Rightarrow> log_entries rest (obj_set commit data log))"

definition parse_log :: "string \<Rightarrow> outcome" where
  "parse_log text =
     (case log_entries (split_on (CHR 0x00) [] text) [] of
        Inl e \<Rightarrow> Throws e
      | Inr log \<Rightarrow> Calls None (JObj log))"

text \<open>The callback that \<^verbatim>\<open>logFile\<close> gives to \<^verbatim>\<open>gitExec\<close> (lines 297 to 323).\<close>

definition logFile_cb :: "jserr option \<Rightarrow> jsval \<Rightarrow> outcome" where
  "logFile_cb err text =
     (case err of
        Some e \<Rightarrow> Calls (Some e) JUndefined
      | None \<Rightarrow>
          (case text of
             JStr t \<Rightarrow> if length t = 0 then Calls None (JArr []) else parse_log t
           | JBuf b \<Rightarrow> if length b = 0 then Calls None (JArr [])
                       else Throws (JErr TypeError ''text.split is not a function'' False)
           | JArr xs \<Rightarrow> if length xs = 0 then Calls None (JArr [])
                        else Throws (JErr TypeError ''text.split is not a function'' False)
           | _ \<Rightarrow> Throws (JErr TypeError ''text has no length or no split'' False)))"

text \<open>\<^verbatim>\<open>String(v)\<close>, for the values that can reach a regular expression's \<^verbatim>\<open>test\<close>.\<close>

fun to_string :: "jsval \<Rightarrow> string" where
  "to_string JUndefined = ''undefined''"
| "to_string JNull = ''null''"
| "to_string JFalse = ''false''"
| "to_string (JStr s) = s"
| "to_string (JBuf b) = b"
| "to_string (JArr xs) = join '','' (map to_string xs)"
| "to_string (JObj kvs) = ''[object Object]''"

text \<open>
  The loop of lines 409 to 416 over the entries of a tree: the state is the pair of arrays
  \<^verbatim>\<open>files\<close> and \<^verbatim>\<open>dirs\<close>.
\<close>

fun entries :: "string list \<Rightarrow> string list \<times> string list \<Rightarrow> string list \<times> string list" where
  "entries [] fd = fd"
| "entries (e # es) (files, dirs) =
     (if rx_test False ends_slash e then entries es (files, dirs @ [butlast e])
      else entries es (files @ [e], dirs))"

text \<open>
  The function that \<^verbatim>\<open>Git.prototype.readDir\<close> decorates (lines 391 to 469), at the request it
  makes, and the callback that it gives to \<^verbatim>\<open>readFile\<close> for a version of 40 characters (lines
  394 to 423). Line 401 evaluates \<^verbatim>\<open>combined + ' is not a directory'\<close>, and no declaration of
  \<^verbatim>\<open>combined\<close> is in scope there (the module declares \<^verbatim>\<open>Tools\<close>, \<^verbatim>\<open>ChildProcess\<close>, \<^verbatim>\<open>Path\<close>,
  \<^verbatim>\<open>fs\<close>, \<^verbatim>\<open>CACHE_LIFE\<close>, \<^verbatim>\<open>gitENOENT\<close>, \<^verbatim>\<open>Git\<close> and \<^verbatim>\<open>safe\<close>; the enclosing functions declare
  \<^verbatim>\<open>that\<close>, \<^verbatim>\<open>safeReadDir\<close>, \<^verbatim>\<open>version\<close>, \<^verbatim>\<open>path\<close>, \<^verbatim>\<open>callback\<close>, \<^verbatim>\<open>err\<close> and \<^verbatim>\<open>text\<close>): the
  evaluation throws a \<^verbatim>\<open>ReferenceError\<close> before \<^verbatim>\<open>new Error\<close> and \<^verbatim>\<open>callback\<close> are reached.
\<close>

definition readDir_op :: "string \<Rightarrow> string \<Rightarrow> request" where
  "readDir_op version path =
     (if length version = 40 then ReadFile version path ''utf-8'' else FsReaddir path)"

definition readDir_cb :: "jserr option \<Rightarrow> jsval \<Rightarrow> outcome" where
  "readDir_cb err text =
     (case err of
        Some e \<Rightarrow> Calls (Some e) JUndefined
      | None \<Rightarrow>
          if \<not> rx_test False tree_header (to_string text) then
            Throws (JErr ReferenceError ''combined is not defined'' False)
          else
            (case text of
               JStr t \<Rightarrow>
                 (let (files, dirs) =
                        entries (split_on (CHR 0x0A) [] (trim (rx_remove_first False tree_header t))) ([], [])
                  in Calls None (JObj [(''files'', JArr (map JStr files)), (''dirs'', JArr (map JStr dirs))]))
             | _ \<Rightarrow> Throws (JErr TypeError ''text.replace is not a function'' False)))"


definition logFile_close ::
  "string list \<Rightarrow> string \<Rightarrow> string \<Rightarrow> nat option \<Rightarrow> string list \<Rightarrow> string list
     \<Rightarrow> outcome option" where
  "logFile_close gitCommands version path exitCode stdout stderr =
     (case logFile_op version path of
        GitExec commands enc \<Rightarrow>
          Some (case gitExec_close (Inr JUndefined) (gitCommands @ commands) enc True exitCode stdout stderr of
                  Throws e \<Rightarrow> Throws e
                | Calls err text \<Rightarrow> logFile_cb err text)
      | _ \<Rightarrow> None)"



section \<open>\<^verbatim>\<open>getHeadSha\<close>\<close>

text \<open>
  The files that \<^verbatim>\<open>getHeadSha\<close> reads in \<^verbatim>\<open>_gitDir\<close> (\<^verbatim>\<open>Path.join\<close> is not embedded: a file is
  named by what is joined to the directory), and the requests that are outstanding, each with
  the number of the call of \<^verbatim>\<open>getHeadSha\<close> that made it. A call that starts a resolution has its
  own variables \<^verbatim>\<open>head\<close>, \<^verbatim>\<open>packedRefs\<close> and \<^verbatim>\<open>master\<close>; \<open>None\<close> is \<^verbatim>\<open>undefined\<close>.
\<close>

datatype hfile = PackedRefs | HeadFile | RefFile string

datatype hreq = PExists nat | PGc nat | PPacked nat | PHead nat | PLoose nat

record hvars =
  head :: "string option"
  packedRefs :: "string option"
  master :: jsval

record head_state =
  shaCache :: jsval
  shaQueue :: "nat list option"
  gitDir :: string
  gitCommands :: "string list"
  hvars :: "nat \<Rightarrow> hvars"
  nextcall :: nat
  pending :: "hreq list"
  htimers :: "nat list"
  hnow :: nat

definition head_init :: "string \<Rightarrow> string list \<Rightarrow> head_state" where
  "head_init dir cmds = \<lparr> shaCache = JFalse, shaQueue = None, gitDir = dir, gitCommands = cmds,
     hvars = (\<lambda>n. \<lparr>head = None, packedRefs = None, master = JUndefined\<rparr>), nextcall = 0,
     pending = [], htimers = [], hnow = 0 \<rparr>"

text \<open>
  The environment: a caller calls \<^verbatim>\<open>getHeadSha\<close>; \<^verbatim>\<open>Path.exists\<close> answers; the \<^verbatim>\<open>git gc\<close>
  subprocess closes with an exit code and its two streams; one of the three reads completes with
  an error or a text; time passes. An answer to a request that is not outstanding does not
  happen: Node answers each request once.
\<close>

datatype hevent =
    HCall nat
  | HExists nat bool
  | HGcClose nat "nat option" "string list" "string list"
  | HPacked nat "jserr + string"
  | HHead nat "jserr + string"
  | HLoose nat "jserr + string"
  | HElapse nat

text \<open>
  What a step does to the outside: it calls a caller's callback, asks whether \<^verbatim>\<open>packed-refs\<close>
  exists, starts a read, spawns \<^verbatim>\<open>git\<close>, or throws out of a listener with nothing to catch the
  exception. \<open>HUnmodelled\<close> marks a pattern outside the embedded fragment of regular
  expressions.
\<close>

datatype haction =
    HCalled nat "jserr option" jsval
  | HAskExists
  | HRead hfile
  | HSpawn "string list"
  | HUncaught jserr
  | HUnmodelled

text \<open>\<^verbatim>\<open>groupCallback\<close> (lines 158 to 167). A queue that is \<^verbatim>\<open>false\<close> has no \<^verbatim>\<open>length\<close>: the loop does not run.\<close>

fun hflush :: "nat list \<Rightarrow> jserr option \<Rightarrow> jsval \<Rightarrow> haction list" where
  "hflush [] err v = []"
| "hflush (cb # q) err v = HCalled cb err v # hflush q err v"

definition groupCallback :: "jserr option \<Rightarrow> jsval \<Rightarrow> head_state \<Rightarrow> haction list \<times> head_state" where
  "groupCallback err v s =
     ((case shaQueue s of None \<Rightarrow> [] | Some q \<Rightarrow> hflush q err v), s\<lparr>shaQueue := None\<rparr>)"

text \<open>
  The two ways to the hash in \<^verbatim>\<open>checkDone\<close> (lines 225 to 230): \<^verbatim>\<open>match(...)[1]\<close> throws a
  \<^verbatim>\<open>TypeError\<close> when there is no match, and \<^verbatim>\<open>new RegExp\<close> throws a \<^verbatim>\<open>SyntaxError\<close> on a malformed
  pattern. The result is the exception, or the value of element 1 of the match.
\<close>

definition first_group :: "(string \<times> mstate) option \<Rightarrow> jserr + jsval" where
  "first_group r =
     (case r of
        None \<Rightarrow> Inl (JErr TypeError ''Cannot read property 1 of null'' False)
      | Some m \<Rightarrow> Inr (case group 1 m of None \<Rightarrow> JUndefined | Some h \<Rightarrow> JStr h))"

definition sha_of_master :: "string \<Rightarrow> jserr + jsval" where
  "sha_of_master m = first_group (rx_exec False sha_line m)"

definition sha_of_packed :: "string \<Rightarrow> string \<Rightarrow> (jserr + jsval) option" where
  "sha_of_packed p h =
     (case RegExp (''([a-f0-9]{40}) '' @ h) of
        Compiled r \<Rightarrow> Some (first_group (rx_exec False r p))
      | SyntaxErr \<Rightarrow> Some (Inl (JErr SyntaxError ''Invalid regular expression'' False))
      | Unsupported \<Rightarrow> None)"

definition truthy_str :: "string option \<Rightarrow> bool" where
  "truthy_str x = (case x of None \<Rightarrow> False | Some s \<Rightarrow> s \<noteq> [])"

text \<open>\<^verbatim>\<open>checkDone\<close> (lines 217 to 242), for the variables of call \<open>n\<close>.\<close>

definition finish :: "jserr + jsval \<Rightarrow> head_state \<Rightarrow> haction list \<times> head_state" where
  "finish r s =
     (case r of
        Inl e \<Rightarrow> groupCallback (Some e) JUndefined s
      | Inr sha \<Rightarrow>
          (let (out, s') = groupCallback None sha (s\<lparr>shaCache := sha\<rparr>)
           in (out, s'\<lparr>htimers := htimers s' @ [hnow s' + CACHE_LIFE False ! 1]\<rparr>)))"

definition checkDone :: "nat \<Rightarrow> head_state \<Rightarrow> haction list \<times> head_state" where
  "checkDone n s =
     (let v = hvars s n in
      if \<not> (truthy_str (head v) \<and> truthy_str (packedRefs v) \<and> master v \<noteq> JUndefined) then ([], s)
      else if truthy (master v) then finish (sha_of_master (to_string (master v))) s
      else (case sha_of_packed (the (packedRefs v)) (the (head v)) of
              None \<Rightarrow> ([HUnmodelled], s)
            | Some r \<Rightarrow> finish r s))"

text \<open>\<^verbatim>\<open>getHEAD\<close> starts the reads of \<^verbatim>\<open>packed-refs\<close> and of \<^verbatim>\<open>HEAD\<close> (lines 181 to 214).\<close>

definition getHEAD :: "nat \<Rightarrow> head_state \<Rightarrow> haction list \<times> head_state" where
  "getHEAD n s = ([HRead PackedRefs, HRead HeadFile], s\<lparr>pending := pending s @ [PPacked n, PHead n]\<rparr>)"

text \<open>The body of \<^verbatim>\<open>getHeadSha\<close> up to the call of \<^verbatim>\<open>Path.exists\<close> (lines 136 to 171).\<close>

definition head_call :: "nat \<Rightarrow> head_state \<Rightarrow> haction list \<times> head_state" where
  "head_call callback s =
     (if truthy (shaCache s) then ([HCalled callback None (shaCache s)], s)
      else (case shaQueue s of
              Some q \<Rightarrow> ([], s\<lparr>shaQueue := Some (q @ [callback])\<rparr>)
            | None \<Rightarrow>
                if gitDir s = [] then
                  ([HCalled callback (Some (JErr PlainError ''gitDir not set yet!'' False)) JUndefined], s)
                else
                  ([HAskExists],
                   s\<lparr>shaQueue := Some [callback],
                     hvars := (hvars s)(nextcall s := \<lparr>head = None, packedRefs = None, master = JUndefined\<rparr>),
                     pending := pending s @ [PExists (nextcall s)],
                     nextcall := Suc (nextcall s)\<rparr>)))"

text \<open>
  The callback of \<^verbatim>\<open>Path.exists\<close> (lines 171 to 179). Without \<^verbatim>\<open>packed-refs\<close> it calls
  \<^verbatim>\<open>that.gitExec(['gc'], function (err) { getHEAD(); })\<close>: two arguments, where \<^verbatim>\<open>gitExec\<close> has the
  parameters \<^verbatim>\<open>commands\<close>, \<^verbatim>\<open>encoding\<close> and \<^verbatim>\<open>callback\<close>. The function is bound to \<^verbatim>\<open>encoding\<close>
  and \<^verbatim>\<open>callback\<close> is \<^verbatim>\<open>undefined\<close>.
\<close>

definition head_exists :: "nat \<Rightarrow> bool \<Rightarrow> head_state \<Rightarrow> haction list \<times> head_state" where
  "head_exists n exists s =
     (if exists then getHEAD n s
      else ([HSpawn (gitCommands s @ [''gc''])], s\<lparr>pending := pending s @ [PGc n]\<rparr>))"

text \<open>
  The \<^verbatim>\<open>'close'\<close> listener of that subprocess. \<^verbatim>\<open>gitExec\<close> calls its parameter \<^verbatim>\<open>callback\<close>, never
  its parameter \<^verbatim>\<open>encoding\<close>: the function that would call \<^verbatim>\<open>getHEAD\<close> is called by nothing. An
  exception leaves the listener uncaught.
\<close>

definition head_gc_close ::
  "jserr + jsval \<Rightarrow> nat \<Rightarrow> nat option \<Rightarrow> string list \<Rightarrow> string list \<Rightarrow> head_state \<Rightarrow> haction list \<times> head_state" where
  "head_gc_close J n exitCode stdout stderr s =
     (case gitExec_close J (gitCommands s @ [''gc'']) EncFunction False exitCode stdout stderr of
        Throws e \<Rightarrow> ([HUncaught e], s)
      | Calls err v \<Rightarrow> ([], s))"

text \<open>The callbacks of the three reads (lines 182 to 190, 192 to 212 and 206 to 209).\<close>

definition head_packed :: "nat \<Rightarrow> jserr + string \<Rightarrow> head_state \<Rightarrow> haction list \<times> head_state" where
  "head_packed n r s =
     (case r of
        Inl e \<Rightarrow> groupCallback (Some e) JUndefined s
      | Inr result \<Rightarrow> checkDone n (s\<lparr>hvars := (hvars s)(n := (hvars s n)\<lparr>packedRefs := Some result\<rparr>)\<rparr>))"

definition head_head :: "nat \<Rightarrow> jserr + string \<Rightarrow> head_state \<Rightarrow> haction list \<times> head_state" where
  "head_head n r s =
     (case r of
        Inl e \<Rightarrow> groupCallback (Some e) JUndefined s
      | Inr result \<Rightarrow>
          (case rx_exec False head_ref result of
             None \<Rightarrow> groupCallback (Some (JErr TypeError ''Cannot read property 1 of null'' False)) JUndefined s
           | Some m \<Rightarrow>
               (let h = (case group 1 m of None \<Rightarrow> [] | Some x \<Rightarrow> x);
                    s1 = s\<lparr>hvars := (hvars s)(n := (hvars s n)\<lparr>head := Some h\<rparr>),
                           pending := pending s @ [PLoose n]\<rparr>;
                    (out, s2) = checkDone n s1
                in (HRead (RefFile h) # out, s2))))"

definition head_loose :: "nat \<Rightarrow> jserr + string \<Rightarrow> head_state \<Rightarrow> haction list \<times> head_state" where
  "head_loose n r s =
     checkDone n (s\<lparr>hvars := (hvars s)(n := (hvars s n)
        \<lparr>master := (case r of Inl e \<Rightarrow> JNull | Inr result \<Rightarrow> if result = [] then JNull else JStr result)\<rparr>)\<rparr>)"

definition head_elapse :: "nat \<Rightarrow> head_state \<Rightarrow> haction list \<times> head_state" where
  "head_elapse d s =
     ([], s\<lparr>hnow := hnow s + d,
            shaCache := (if list_ex (\<lambda>t. t \<le> hnow s + d) (htimers s) then JFalse else shaCache s),
            htimers := filter (\<lambda>t. \<not> t \<le> hnow s + d) (htimers s)\<rparr>)"

text \<open>An answer is taken only if its request is outstanding, and the request is then removed.\<close>

definition answer ::
  "hreq \<Rightarrow> (head_state \<Rightarrow> haction list \<times> head_state) \<Rightarrow> head_state \<Rightarrow> haction list \<times> head_state" where
  "answer rq f s = (if rq \<in> set (pending s) then f (s\<lparr>pending := remove1 rq (pending s)\<rparr>) else ([], s))"

fun head_step :: "jserr + jsval \<Rightarrow> hevent \<Rightarrow> head_state \<Rightarrow> haction list \<times> head_state" where
  "head_step J (HCall callback) s = head_call callback s"
| "head_step J (HExists n b) s = answer (PExists n) (head_exists n b) s"
| "head_step J (HGcClose n c out err) s = answer (PGc n) (head_gc_close J n c out err) s"
| "head_step J (HPacked n r) s = answer (PPacked n) (head_packed n r) s"
| "head_step J (HHead n r) s = answer (PHead n) (head_head n r) s"
| "head_step J (HLoose n r) s = answer (PLoose n) (head_loose n r) s"
| "head_step J (HElapse d) s = head_elapse d s"

fun head_run :: "jserr + jsval \<Rightarrow> hevent list \<Rightarrow> head_state \<Rightarrow> haction list \<times> head_state" where
  "head_run J [] s = ([], s)"
| "head_run J (e # es) s =
     (let (out1, s1) = head_step J e s; (out2, s2) = head_run J es s1 in (out1 @ out2, s2))"

text \<open>The callbacks of callers among the actions.\<close>

fun hcalls :: "haction list \<Rightarrow> haction list" where
  "hcalls [] = []"
| "hcalls (HCalled cb err v # out) = HCalled cb err v # hcalls out"
| "hcalls (a # out) = hcalls out"

text \<open>
  The reads of a repository whose \<^verbatim>\<open>packed-refs\<close> is empty and whose \<^verbatim>\<open>HEAD\<close> is a symbolic ref: a
  read of \<^verbatim>\<open>packed-refs\<close> gives the empty string, and a read of \<^verbatim>\<open>HEAD\<close> gives a text of the form
  \<^verbatim>\<open>ref: ...\<close> with a line feed at its end.
\<close>

fun empty_packed :: "hevent \<Rightarrow> bool" where
  "empty_packed (HPacked n r) = (r = Inr [])"
| "empty_packed (HHead n r) = (case r of Inl e \<Rightarrow> False | Inr result \<Rightarrow> rx_test False head_ref result)"
| "empty_packed e = True"

text \<open>No resolution can complete: every request outstanding belongs to a call whose \<^verbatim>\<open>packedRefs\<close> is falsy.\<close>

fun req_call :: "hreq \<Rightarrow> nat" where
  "req_call (PExists n) = n"
| "req_call (PGc n) = n"
| "req_call (PPacked n) = n"
| "req_call (PHead n) = n"
| "req_call (PLoose n) = n"

definition stuck :: "head_state \<Rightarrow> bool" where
  "stuck s = list_all (\<lambda>rq. \<not> truthy_str (packedRefs (hvars s (req_call rq)))) (pending s)"

text \<open>A resolution is in flight, nothing is cached, and no resolution can complete.\<close>

definition waiting_forever :: "head_state \<Rightarrow> bool" where
  "waiting_forever s = (shaQueue s \<noteq> None \<and> \<not> truthy (shaCache s) \<and> stuck s)"

section \<open>\<^verbatim>\<open>getBranchSha\<close>\<close>

text \<open>
  \<^verbatim>\<open>_branchsQueue\<close> is a plain object, and \<^verbatim>\<open>that._branchsQueue[branch]\<close> also finds what the
  object inherits from \<^verbatim>\<open>Object.prototype\<close>. (The keys of \<^verbatim>\<open>_branchsCache\<close> all contain a
  slash, and no inherited property does.)
\<close>

definition proto_props :: "string list" where
  "proto_props = [''constructor'', ''toString'', ''toLocaleString'', ''valueOf'', ''hasOwnProperty'',
     ''isPrototypeOf'', ''propertyIsEnumerable'', ''__defineGetter__'', ''__defineSetter__'',
     ''__lookupGetter__'', ''__lookupSetter__'', ''__proto__'']"

text \<open>
  The state of \<^verbatim>\<open>getBranchSha\<close> on one repository: the own properties of the two objects (a
  falsy or absent entry of the queue is \<open>None\<close>, another one is the waiter array it refers to,
  named by the number of the subprocess it was made for), the waiter arrays, the \<^verbatim>\<open>show-ref\<close>
  subprocesses that have not closed, each with the \<^verbatim>\<open>branch\<close> of the call that spawned it, the
  timers and the clock. \<open>bloops\<close> is the stack of the calls of \<^verbatim>\<open>groupCallback\<close> that are inside
  their loop, each waiting for the waiter it called, the innermost first: the \<^verbatim>\<open>branch\<close> of
  the closure, its variable \<^verbatim>\<open>localQueue\<close>, its two arguments, and the key for which
  \<^verbatim>\<open>checkDone\<close> sets the timer once \<^verbatim>\<open>groupCallback\<close> has returned (none when \<^verbatim>\<open>groupCallback\<close>
  was called with an error).
\<close>

record branch_state =
  branchsCache :: "string \<Rightarrow> jsval"
  branchsQueue :: "string \<Rightarrow> nat option"
  barrays :: "nat \<Rightarrow> nat list"
  bgitCommands :: "string list"
  procs :: "nat \<Rightarrow> string"
  nextproc :: nat
  brunning :: "nat list"
  bloops :: "(string \<times> nat option \<times> jserr option \<times> jsval \<times> string option) list"
  btimers :: "(nat \<times> string) list"
  bnow :: nat

definition branch_init :: "string list \<Rightarrow> branch_state" where
  "branch_init cmds = \<lparr> branchsCache = (\<lambda>k. JUndefined), branchsQueue = (\<lambda>k. None),
     barrays = (\<lambda>n. []), bgitCommands = cmds, procs = (\<lambda>n. []), nextproc = 0, brunning = [],
     bloops = [], btimers = [], bnow = 0 \<rparr>"

text \<open>
  The events: a call of \<^verbatim>\<open>getBranchSha\<close>, the close of a subprocess with its exit code and its
  two streams, the return or the exception of the waiter that the innermost running
  \<^verbatim>\<open>groupCallback\<close> called, and the passing of time.
\<close>

datatype bevent =
    BCall string nat
  | BClose nat "nat option" "string list" "string list"
  | BReturn
  | BThrow jserr
  | BElapse nat

text \<open>
  What a step does to the outside: it calls a caller's callback, spawns \<^verbatim>\<open>git\<close>, throws to the
  caller of \<^verbatim>\<open>getBranchSha\<close>, throws out of the listener of the subprocess (an exception of its
  own, or the one of a waiter, which nothing catches). \<open>BUnmodelled\<close> marks a pattern outside the
  embedded fragment of regular expressions.
\<close>

datatype baction =
    BCalled nat "jserr option" jsval
  | BSpawn "string list"
  | BThrown jserr
  | BUncaught jserr
  | BUnmodelled

text \<open>
  The keys that \<^verbatim>\<open>checkCache\<close> and the callback of \<^verbatim>\<open>show-ref\<close> try, in their order (lines 508 to
  518 and 574 to 586). The second key of a bare name carries the text \<^verbatim>\<open>(.+)\<close>.
\<close>

definition candidates :: "string \<Rightarrow> string list" where
  "candidates branch =
     (if rx_test False full_path branch then [branch]
      else if rx_test False remote_short branch then [''remotes/'' @ branch]
      else [''heads/'' @ branch, ''remotes/(.+)/'' @ branch, ''tags/'' @ branch])"

text \<open>\<^verbatim>\<open>checkCache\<close>: the first key with a truthy entry answers the caller at once.\<close>

fun checkCache :: "(string \<Rightarrow> jsval) \<Rightarrow> string list \<Rightarrow> jsval option" where
  "checkCache c [] = None"
| "checkCache c (key # keys) = (if truthy (c key) then Some (c key) else checkCache c keys)"

text \<open>
  The loop of \<^verbatim>\<open>groupCallback\<close> (lines 541 to 546) for the innermost running call, from the
  test of the loop on. With a waiter in the array, it takes the first one out and calls it, and
  then waits for it. With none (or when \<^verbatim>\<open>localQueue\<close> is \<^verbatim>\<open>false\<close>, whose \<^verbatim>\<open>length\<close> is
  \<^verbatim>\<open>undefined\<close>), it sets \<^verbatim>\<open>that._branchsQueue[branch] = false\<close> and returns; \<^verbatim>\<open>checkDone\<close> then
  sets the timer of line 554, \<^verbatim>\<open>CACHE_LIFE[1]\<close> = 100 ms.
\<close>

definition bloop_exit :: "branch_state \<Rightarrow> baction list \<times> branch_state" where
  "bloop_exit s =
     (case bloops s of
        [] \<Rightarrow> ([], s)
      | (branch, localQueue, err, v, after) # rest \<Rightarrow>
          ([], s\<lparr>branchsQueue := (branchsQueue s)(branch := None), bloops := rest,
                 btimers := (case after of
                               None \<Rightarrow> btimers s
                             | Some key \<Rightarrow> btimers s @ [(bnow s + CACHE_LIFE False ! 1, key)])\<rparr>))"

definition bloop :: "branch_state \<Rightarrow> baction list \<times> branch_state" where
  "bloop s =
     (case bloops s of
        [] \<Rightarrow> ([], s)
      | (branch, localQueue, err, v, after) # rest \<Rightarrow>
          (case localQueue of
             None \<Rightarrow> bloop_exit s
           | Some a \<Rightarrow>
               (case barrays s a of
                  cb # q \<Rightarrow> ([BCalled cb err v], s\<lparr>barrays := (barrays s)(a := q)\<rparr>)
                | [] \<Rightarrow> bloop_exit s)))"

text \<open>
  \<^verbatim>\<open>groupCallback\<close> (lines 537 to 547) and \<^verbatim>\<open>checkDone\<close> (lines 549 to 557) of the call for
  \<open>branch\<close>, up to the first waiter that the loop calls.
\<close>

definition bgroup ::
  "string \<Rightarrow> jserr option \<Rightarrow> jsval \<Rightarrow> string option \<Rightarrow> branch_state \<Rightarrow> baction list \<times> branch_state" where
  "bgroup branch err v after s =
     bloop (s\<lparr>bloops := (branch, branchsQueue s branch, err, v, after) # bloops s\<rparr>)"

definition bcheckDone :: "string \<Rightarrow> string \<Rightarrow> jsval \<Rightarrow> branch_state \<Rightarrow> baction list \<times> branch_state" where
  "bcheckDone branch key sha s =
     bgroup branch None sha (Some key) (s\<lparr>branchsCache := (branchsCache s)(key := sha)\<rparr>)"

text \<open>
  The waiter that the innermost running \<^verbatim>\<open>groupCallback\<close> called returns, and the loop goes on;
  or it throws, and the exception leaves \<^verbatim>\<open>groupCallback\<close>, \<^verbatim>\<open>checkDone\<close> and the listener of the
  subprocess: lines 546 and 554 are not reached.
\<close>

definition branch_return :: "branch_state \<Rightarrow> baction list \<times> branch_state" where
  "branch_return s = bloop s"

definition branch_throw :: "jserr \<Rightarrow> branch_state \<Rightarrow> baction list \<times> branch_state" where
  "branch_throw e s =
     (case bloops s of
        [] \<Rightarrow> ([], s)
      | f # rest \<Rightarrow> ([BUncaught e], s\<lparr>bloops := rest\<rparr>))"

text \<open>
  The inner \<^verbatim>\<open>check(key)\<close> of lines 562 to 572:
  \<^verbatim>\<open>lines.match(new RegExp('^([a-f0-9]{40}) refs/' + key + '$', 'm'))\<close>. The key goes into the
  pattern as it is.
\<close>

datatype lookup = Found jsval | Missing | Broken | Beyond

definition ref_lookup :: "string \<Rightarrow> string \<Rightarrow> lookup" where
  "ref_lookup key lines =
     (case RegExp (''^([a-f0-9]{40}) refs/'' @ key @ ''$'') of
        Compiled r \<Rightarrow>
          (case rx_exec True r lines of
             None \<Rightarrow> Missing
           | Some m \<Rightarrow> Found (case group 1 m of None \<Rightarrow> JUndefined | Some h \<Rightarrow> JStr h))
      | SyntaxErr \<Rightarrow> Broken
      | Unsupported \<Rightarrow> Beyond)"

text \<open>The chain of \<^verbatim>\<open>check\<close> calls, and line 588 when none of them finds a line.\<close>

fun scan :: "string \<Rightarrow> string list \<Rightarrow> string \<Rightarrow> branch_state \<Rightarrow> baction list \<times> branch_state"
  and scan_at :: "string \<Rightarrow> string \<Rightarrow> string list \<Rightarrow> string \<Rightarrow> lookup \<Rightarrow> branch_state \<Rightarrow> baction list \<times> branch_state"
  where
  "scan branch [] lines s =
     bgroup branch (Some (JErr PlainError (''Invalid branch '' @ branch) False)) JUndefined None s"
| "scan branch (key # keys) lines s = scan_at branch key keys lines (ref_lookup key lines) s"
| "scan_at branch key keys lines (Found sha) s = bcheckDone branch key sha s"
| "scan_at branch key keys lines Missing s = scan branch keys lines s"
| "scan_at branch key keys lines Broken s =
     ([BUncaught (JErr SyntaxError ''Invalid regular expression'' False)], s)"
| "scan_at branch key keys lines Beyond s = ([BUnmodelled], s)"

text \<open>The body of \<^verbatim>\<open>getBranchSha\<close> up to the call of \<^verbatim>\<open>gitExec\<close> (lines 493 to 559).\<close>

definition branch_call :: "string \<Rightarrow> nat \<Rightarrow> branch_state \<Rightarrow> baction list \<times> branch_state" where
  "branch_call branch callback s =
     (case checkCache (branchsCache s) (candidates branch) of
        Some sha \<Rightarrow> ([BCalled callback None sha], s)
      | None \<Rightarrow>
          (case branchsQueue s branch of
             Some a \<Rightarrow> ([], s\<lparr>barrays := (barrays s)(a := barrays s a @ [callback])\<rparr>)
           | None \<Rightarrow>
               if branch \<in> set proto_props then
                 ([BThrown (JErr TypeError ''that._branchsQueue[branch].push is not a function'' False)], s)
               else
                 ([BSpawn (bgitCommands s @ [''show-ref''])],
                  s\<lparr>branchsQueue := (branchsQueue s)(branch := Some (nextproc s)),
                    barrays := (barrays s)(nextproc s := [callback]),
                    procs := (procs s)(nextproc s := branch),
                    brunning := brunning s @ [nextproc s],
                    nextproc := Suc (nextproc s)\<rparr>)))"

text \<open>The callback that \<^verbatim>\<open>getBranchSha\<close> gives to \<^verbatim>\<open>gitExec\<close> (lines 559 to 589).\<close>

definition branch_lines :: "string \<Rightarrow> jserr option \<Rightarrow> jsval \<Rightarrow> branch_state \<Rightarrow> baction list \<times> branch_state" where
  "branch_lines branch err v s =
     (case err of
        Some e \<Rightarrow> bgroup branch (Some e) JUndefined None s
      | None \<Rightarrow>
          (case v of
             JStr lines \<Rightarrow> scan branch (candidates branch) lines s
           | _ \<Rightarrow> ([BUncaught (JErr TypeError ''lines.match is not a function'' False)], s)))"

definition branch_close ::
  "nat \<Rightarrow> nat option \<Rightarrow> string list \<Rightarrow> string list \<Rightarrow> branch_state \<Rightarrow> baction list \<times> branch_state" where
  "branch_close n exitCode stdout stderr s =
     (if n \<in> set (brunning s) then
        (let s' = s\<lparr>brunning := remove1 n (brunning s)\<rparr> in
         case gitExec_close (Inr JUndefined) (bgitCommands s @ [''show-ref'']) (EncString ''utf-8'') True
                exitCode stdout stderr of
           Throws e \<Rightarrow> ([BUncaught e], s')
         | Calls err v \<Rightarrow> branch_lines (procs s n) err v s')
      else ([], s))"

fun bexpire :: "(nat \<times> string) list \<Rightarrow> (string \<Rightarrow> jsval) \<Rightarrow> (string \<Rightarrow> jsval)" where
  "bexpire [] c = c"
| "bexpire ((due, key) # ts) c = bexpire ts (c(key := JFalse))"

definition branch_elapse :: "nat \<Rightarrow> branch_state \<Rightarrow> baction list \<times> branch_state" where
  "branch_elapse d s =
     ([], s\<lparr>bnow := bnow s + d,
            branchsCache := bexpire (filter (\<lambda>t. fst t \<le> bnow s + d) (btimers s)) (branchsCache s),
            btimers := filter (\<lambda>t. \<not> fst t \<le> bnow s + d) (btimers s)\<rparr>)"

fun branch_step :: "bevent \<Rightarrow> branch_state \<Rightarrow> baction list \<times> branch_state" where
  "branch_step (BCall branch callback) s = branch_call branch callback s"
| "branch_step (BClose n c out err) s = branch_close n c out err s"
| "branch_step BReturn s = branch_return s"
| "branch_step (BThrow e) s = branch_throw e s"
| "branch_step (BElapse d) s = branch_elapse d s"

fun branch_run :: "bevent list \<Rightarrow> branch_state \<Rightarrow> baction list \<times> branch_state" where
  "branch_run [] s = ([], s)"
| "branch_run (e # es) s =
     (let (out1, s1) = branch_step e s; (out2, s2) = branch_run es s1 in (out1 @ out2, s2))"

subsection \<open>Vocabulary for the properties of \<^verbatim>\<open>getBranchSha\<close>\<close>

text \<open>
  The first of the keys, in their order, for which a lookup finds a hash. And the characters
  that stand for themselves in a pattern.
\<close>

fun first_found :: "(string \<Rightarrow> lookup) \<Rightarrow> string list \<Rightarrow> (string \<times> jsval) option" where
  "first_found look [] = None"
| "first_found look (key # keys) =
     (case look key of Found sha \<Rightarrow> Some (key, sha) | _ \<Rightarrow> first_found look keys)"

definition plain_char :: "char \<Rightarrow> bool" where
  "plain_char c = (c \<notin> set (''()|*+?.^$[{'' @ [CHR 0x5C]))"

text \<open>
  The expression that \<^verbatim>\<open>check\<close> builds around a key, given the key as a list of parsed terms.
\<close>

definition ref_rx :: "rx list \<Rightarrow> rx" where
  "ref_rx key = mk_seq ([Bol, Grp 1 (mk_seq [rep 40 hexd]), Lit CHR '' ''] @ lits ''refs/'' @ key @ [Eol])"

section \<open>Properties of the decorator \<^verbatim>\<open>safe\<close>\<close>

lemma starts_append: "starts k (a @ b) = starts k a @ starts k b"
  by (induction k a rule: starts.induct) auto

lemma expire_falsy: "\<not> truthy (c k) \<Longrightarrow> \<not> truthy (expire ts c k)"
  by (induction ts c rule: expire.induct) auto

lemma safe_loop_idle: "running s = [] \<Longrightarrow> safe_loop s = ([], s)"
  by (simp add: safe_loop_def)

lemma safe_loop_shift:
  "running s = (n, err, v) # rest \<Longrightarrow> arrays s n = cb # q \<Longrightarrow>
     safe_loop s = ([Called cb err v], s\<lparr>arrays := (arrays s)(n := q)\<rparr>)"
  by (simp add: safe_loop_def)

lemma safe_loop_exit:
  "running s = (n, err, v) # rest \<Longrightarrow> arrays s n = [] \<Longrightarrow> ops s n = Some (key, version) \<Longrightarrow>
     safe_loop s = ([], s\<lparr>queue := (queue s)(key := None), running := rest\<rparr>)"
  by (simp add: safe_loop_def)

lemma safe_loop_lost:
  "running s = (n, err, v) # rest \<Longrightarrow> arrays s n = [] \<Longrightarrow> ops s n = None \<Longrightarrow>
     safe_loop s = ([], s\<lparr>running := rest\<rparr>)"
  by (simp add: safe_loop_def)

lemma safe_loop_cases:
  obtains (idle) "running s = []" "safe_loop s = ([], s)"
    | (shift) n err v rest cb q where "running s = (n, err, v) # rest" "arrays s n = cb # q"
        "safe_loop s = ([Called cb err v], s\<lparr>arrays := (arrays s)(n := q)\<rparr>)"
    | (exit) n err v rest key version where "running s = (n, err, v) # rest" "arrays s n = []"
        "ops s n = Some (key, version)"
        "safe_loop s = ([], s\<lparr>queue := (queue s)(key := None), running := rest\<rparr>)"
    | (lost) n err v rest where "running s = (n, err, v) # rest" "arrays s n = []" "ops s n = None"
        "safe_loop s = ([], s\<lparr>running := rest\<rparr>)"
proof (cases "running s")
  case Nil
  then show ?thesis using idle safe_loop_idle by blast
next
  case (Cons f rest)
  obtain n err v where f: "f = (n, err, v)" by (cases f)
  note r = Cons[unfolded f]
  show ?thesis
  proof (cases "arrays s n")
    case (Cons cb q)
    show ?thesis by (rule shift[OF r Cons safe_loop_shift[OF r Cons]])
  next
    case Nil
    note a = Nil
    show ?thesis
    proof (cases "ops s n")
      case None
      show ?thesis by (rule lost[OF r a None safe_loop_lost[OF r a None]])
    next
      case (Some kv)
      then have o: "ops s n = Some (fst kv, snd kv)" by simp
      show ?thesis by (rule exit[OF r a o safe_loop_exit[OF r a o]])
    qed
  qed
qed

lemma safe_loop_frame:
  "cache (snd (safe_loop s)) = cache s"
  "timers (snd (safe_loop s)) = timers s"
  "now (snd (safe_loop s)) = now s"
  "ops (snd (safe_loop s)) = ops s"
  "nextop (snd (safe_loop s)) = nextop s"
  "ticks (snd (safe_loop s)) = ticks s"
  by (rule safe_loop_cases[of s]; simp)+

lemma safe_loop_starts: "starts k (fst (safe_loop s)) = []"
  by (rule safe_loop_cases[of s]; simp)

lemma safe_throw_frame:
  "cache (snd (safe_throw e s)) = cache s"
  "timers (snd (safe_throw e s)) = timers s"
  "now (snd (safe_throw e s)) = now s"
  "ops (snd (safe_throw e s)) = ops s"
  "nextop (snd (safe_throw e s)) = nextop s"
  "ticks (snd (safe_throw e s)) = ticks s"
  "queue (snd (safe_throw e s)) = queue s"
  "arrays (snd (safe_throw e s)) = arrays s"
  "running (snd (safe_throw e s)) = tl (running s)"
  "starts k (fst (safe_throw e s)) = []"
  by (cases "running s"; simp add: safe_throw_def)+

text \<open>The state in which the loop of a completion closure begins.\<close>

lemma safe_done_Some:
  assumes "ops s n = Some (key, version)"
  shows "safe_done t n err v s =
     safe_loop ((if truthy v then
                   s\<lparr>cache := (cache s)(key := v),
                     timers := timers s @
                       [(now s + (if version = ''fs'' then CACHE_LIFE t ! 1 else CACHE_LIFE t ! 0), key)]\<rparr>
                 else s)\<lparr>running := (n, err, v) # running s\<rparr>)"
  using assms by (cases "truthy v") (simp_all add: safe_done_def Let_def)

lemma safe_done_frame:
  assumes "ops s n = Some (key, version)"
  shows "cache (snd (safe_done t n err v s)) = (if truthy v then (cache s)(key := v) else cache s)"
    and "ops (snd (safe_done t n err v s)) = ops s"
    and "nextop (snd (safe_done t n err v s)) = nextop s"
    and "ticks (snd (safe_done t n err v s)) = ticks s"
    and "now (snd (safe_done t n err v s)) = now s"
    and "timers (snd (safe_done t n err v s)) =
           (if truthy v then timers s @ [(now s + (if version = ''fs'' then CACHE_LIFE t ! 1 else CACHE_LIFE t ! 0), key)]
            else timers s)"
  by (cases "truthy v"; simp add: safe_done_Some[OF assms] safe_loop_frame)+

lemma safe_call_invalid:
  "\<not> valid_version version \<Longrightarrow> safe_call version rest callback s =
     ([Called callback (Some (JErr PlainError (''Invalid version '' @ version) False)) JUndefined], s)"
  by (simp add: safe_call_def valid_version_def)

lemma safe_call_cached:
  "valid_version version \<Longrightarrow> truthy (cache s (join '':'' (version # rest))) \<Longrightarrow>
   safe_call version rest callback s =
     ([], s\<lparr>ticks := ticks s @ [(callback, join '':'' (version # rest))]\<rparr>)"
  by (simp add: safe_call_def valid_version_def)

lemma safe_call_queued:
  "valid_version version \<Longrightarrow> \<not> truthy (cache s (join '':'' (version # rest))) \<Longrightarrow>
   queue s (join '':'' (version # rest)) = Some q \<Longrightarrow>
   safe_call version rest callback s =
     ([], s\<lparr>arrays := (arrays s)(q := arrays s q @ [callback])\<rparr>)"
  by (simp add: safe_call_def valid_version_def)

lemma safe_call_start:
  "valid_version version \<Longrightarrow> \<not> truthy (cache s (join '':'' (version # rest))) \<Longrightarrow>
   queue s (join '':'' (version # rest)) = None \<Longrightarrow>
   safe_call version rest callback s =
     ([Started (nextop s) (version # rest)],
      s\<lparr>queue := (queue s)(join '':'' (version # rest) := Some (nextop s)),
        arrays := (arrays s)(nextop s := [callback]),
        ops := (ops s)(nextop s := Some (join '':'' (version # rest), version)),
        nextop := Suc (nextop s)\<rparr>)"
  by (simp add: safe_call_def valid_version_def Let_def)

lemma safe_call_cases:
  obtains (invalid) "\<not> valid_version version"
      "safe_call version rest callback s =
        ([Called callback (Some (JErr PlainError (''Invalid version '' @ version) False)) JUndefined], s)"
    | (hit) "valid_version version" "truthy (cache s (join '':'' (version # rest)))"
      "safe_call version rest callback s =
        ([], s\<lparr>ticks := ticks s @ [(callback, join '':'' (version # rest))]\<rparr>)"
    | (queued) q where "valid_version version" "\<not> truthy (cache s (join '':'' (version # rest)))"
      "queue s (join '':'' (version # rest)) = Some q"
      "safe_call version rest callback s =
        ([], s\<lparr>arrays := (arrays s)(q := arrays s q @ [callback])\<rparr>)"
    | (start) "valid_version version" "\<not> truthy (cache s (join '':'' (version # rest)))"
      "queue s (join '':'' (version # rest)) = None"
      "safe_call version rest callback s =
        ([Started (nextop s) (version # rest)],
         s\<lparr>queue := (queue s)(join '':'' (version # rest) := Some (nextop s)),
           arrays := (arrays s)(nextop s := [callback]),
           ops := (ops s)(nextop s := Some (join '':'' (version # rest), version)),
           nextop := Suc (nextop s)\<rparr>)"
proof (cases "valid_version version")
  case False
  then show ?thesis using invalid safe_call_invalid by blast
next
  case True
  note v = True
  show ?thesis
  proof (cases "truthy (cache s (join '':'' (version # rest)))")
    case True
    then show ?thesis using hit v safe_call_cached by blast
  next
    case False
    then show ?thesis
      using queued start v safe_call_queued safe_call_start
      by (cases "queue s (join '':'' (version # rest))") blast+
  qed
qed


lemma in_flightI:
  assumes "queue s k = Some n" and "ops s n = Some (k, v)" and "n < nextop s"
    and "\<not> truthy (cache s k)" and "\<And>k'. k' \<noteq> k \<Longrightarrow> queue s k' \<noteq> Some n"
    and "\<And>f w. f \<in> set (running s) \<Longrightarrow> ops s (fst f) \<noteq> Some (k, w)"
  shows "in_flight k n s"
  using assms unfolding in_flight_def by blast

lemma in_flightD:
  assumes "in_flight k n s"
  shows "queue s k = Some n" and "\<exists>v. ops s n = Some (k, v)" and "n < nextop s"
    and "\<not> truthy (cache s k)" and "\<And>k'. k' \<noteq> k \<Longrightarrow> queue s k' \<noteq> Some n"
    and "\<And>f w. f \<in> set (running s) \<Longrightarrow> ops s (fst f) \<noteq> Some (k, w)"
  using assms unfolding in_flight_def by blast+

lemma in_flight_frame:
  "queue s' = queue s \<Longrightarrow> ops s' = ops s \<Longrightarrow> nextop s' = nextop s \<Longrightarrow> cache s' k = cache s k
     \<Longrightarrow> running s' = running s \<Longrightarrow> in_flight k n s' = in_flight k n s"
  by (simp add: in_flight_def)

lemma in_flight_call:
  assumes "in_flight k n s"
  shows "in_flight k n (snd (safe_call version rest callback s))
     \<and> arrays (snd (safe_call version rest callback s)) n
         = arrays s n @ waiting k (Call version rest callback)
     \<and> starts k (fst (safe_call version rest callback s)) = []"
proof (rule safe_call_cases[where version=version and rest=rest and callback=callback and s=s])
  assume "\<not> valid_version version"
    and "safe_call version rest callback s =
        ([Called callback (Some (JErr PlainError (''Invalid version '' @ version) False)) JUndefined], s)"
  then show ?thesis using assms by simp
next
  assume v: "valid_version version" and c: "truthy (cache s (join '':'' (version # rest)))"
    and l: "safe_call version rest callback s =
        ([], s\<lparr>ticks := ticks s @ [(callback, join '':'' (version # rest))]\<rparr>)"
  from c in_flightD(4)[OF assms] have ne: "join '':'' (version # rest) \<noteq> k" by auto
  have "in_flight k n (s\<lparr>ticks := ticks s @ [(callback, join '':'' (version # rest))]\<rparr>)"
    using assms by (simp add: in_flight_def)
  then show ?thesis using ne by (simp add: l)
next
  fix q
  assume v: "valid_version version" and c: "\<not> truthy (cache s (join '':'' (version # rest)))"
    and qq: "queue s (join '':'' (version # rest)) = Some q"
    and l: "safe_call version rest callback s =
        ([], s\<lparr>arrays := (arrays s)(q := arrays s q @ [callback])\<rparr>)"
  have f: "in_flight k n (s\<lparr>arrays := (arrays s)(q := arrays s q @ [callback])\<rparr>)"
    using assms by (simp add: in_flight_def)
  show ?thesis
  proof (cases "join '':'' (version # rest) = k")
    case True
    with qq in_flightD(1)[OF assms] have "q = n" by simp
    then show ?thesis using f v True by (simp add: l)
  next
    case False
    with qq in_flightD(5)[OF assms False] have "q \<noteq> n" by auto
    then show ?thesis using f False by (simp add: l)
  qed
next
  assume v: "valid_version version" and c: "\<not> truthy (cache s (join '':'' (version # rest)))"
    and qq: "queue s (join '':'' (version # rest)) = None"
    and l: "safe_call version rest callback s =
        ([Started (nextop s) (version # rest)],
         s\<lparr>queue := (queue s)(join '':'' (version # rest) := Some (nextop s)),
           arrays := (arrays s)(nextop s := [callback]),
           ops := (ops s)(nextop s := Some (join '':'' (version # rest), version)),
           nextop := Suc (nextop s)\<rparr>)"
  let ?key = "join '':'' (version # rest)"
  let ?s' = "s\<lparr>queue := (queue s)(?key := Some (nextop s)),
           arrays := (arrays s)(nextop s := [callback]),
           ops := (ops s)(nextop s := Some (?key, version)),
           nextop := Suc (nextop s)\<rparr>"
  from qq in_flightD(1)[OF assms] have ne: "?key \<noteq> k" by auto
  from in_flightD(3)[OF assms] have nn: "n \<noteq> nextop s" by simp
  from in_flightD(2)[OF assms] obtain w where o: "ops s n = Some (k, w)" by blast
  have "in_flight k n ?s'"
  proof (rule in_flightI)
    show "queue ?s' k = Some n" using ne in_flightD(1)[OF assms] by simp
    show "ops ?s' n = Some (k, w)" using nn o by simp
    show "n < nextop ?s'" using in_flightD(3)[OF assms] by simp
    show "\<not> truthy (cache ?s' k)" using in_flightD(4)[OF assms] by simp
    show "queue ?s' k' \<noteq> Some n" if "k' \<noteq> k" for k'
      using in_flightD(5)[OF assms that] nn by simp
    show "ops ?s' (fst f) \<noteq> Some (k, x)" if "f \<in> set (running ?s')" for f x
      using in_flightD(6)[of k n s f x, OF assms] that ne by simp
  qed
  then show ?thesis using ne nn by (simp add: l)
qed

lemma in_flight_loop:
  assumes "in_flight k n s"
  shows "in_flight k n (snd (safe_loop s)) \<and> arrays (snd (safe_loop s)) n = arrays s n"
proof (rule safe_loop_cases[of s])
  assume "running s = []" "safe_loop s = ([], s)"
  then show ?thesis using assms by simp
next
  fix m err v rest cb q
  assume r: "running s = (m, err, v) # rest" and a: "arrays s m = cb # q"
    and l: "safe_loop s = ([Called cb err v], s\<lparr>arrays := (arrays s)(m := q)\<rparr>)"
  from assms r have "\<forall>w. ops s m \<noteq> Some (k, w)" by (simp add: in_flight_def)
  moreover from assms obtain w where "ops s n = Some (k, w)" by (auto simp: in_flight_def)
  ultimately have "m \<noteq> n" by auto
  then show ?thesis using assms by (simp add: l in_flight_def)
next
  fix m err v rest key version
  assume r: "running s = (m, err, v) # rest" and o: "ops s m = Some (key, version)"
    and l: "safe_loop s = ([], s\<lparr>queue := (queue s)(key := None), running := rest\<rparr>)"
  from assms r o have "key \<noteq> k" by (auto simp: in_flight_def)
  then show ?thesis using assms r by (simp add: l in_flight_def)
next
  fix m err v rest
  assume r: "running s = (m, err, v) # rest"
    and l: "safe_loop s = ([], s\<lparr>running := rest\<rparr>)"
  show ?thesis using assms r by (simp add: l in_flight_def)
qed

lemma in_flight_done:
  assumes "in_flight k n s" and "\<not> completes s k (Done m err v)"
  shows "in_flight k n (snd (safe_done t m err v s))
     \<and> arrays (snd (safe_done t m err v s)) n = arrays s n
     \<and> starts k (fst (safe_done t m err v s)) = []"
proof (cases "ops s m")
  case None
  then show ?thesis using assms by (simp add: safe_done_def)
next
  case (Some kv)
  obtain k' ver where kv: "kv = (k', ver)" by (cases kv)
  from Some kv have om: "ops s m = Some (k', ver)" by simp
  from assms(2) om have ne: "k' \<noteq> k" by simp
  let ?s1 = "(if truthy v then
                   s\<lparr>cache := (cache s)(k' := v),
                     timers := timers s @
                       [(now s + (if ver = ''fs'' then CACHE_LIFE t ! 1 else CACHE_LIFE t ! 0), k')]\<rparr>
                 else s)\<lparr>running := (m, err, v) # running s\<rparr>"
  have f: "in_flight k n ?s1" using assms(1) ne om by (auto simp: in_flight_def)
  have a: "arrays ?s1 n = arrays s n" by simp
  show ?thesis using in_flight_loop[OF f] a
    by (simp add: safe_done_Some[OF om] safe_loop_starts)
qed

lemma in_flight_throw:
  assumes "in_flight k n s"
  shows "in_flight k n (snd (safe_throw e s))"
proof -
  have "set (tl (running s)) \<subseteq> set (running s)" by (cases "running s") auto
  then show ?thesis using assms by (auto simp: in_flight_def safe_throw_frame)
qed

lemma in_flight_step:
  assumes "in_flight k n s" and "\<not> completes s k e"
  shows "in_flight k n (snd (safe_step t e s))
     \<and> arrays (snd (safe_step t e s)) n = arrays s n @ waiting k e
     \<and> starts k (fst (safe_step t e s)) = []"
proof (cases e)
  case (Call version rest callback)
  then show ?thesis using in_flight_call[OF assms(1)] by simp
next
  case (Done m err v)
  then show ?thesis using in_flight_done[OF assms(1)] assms(2) by simp
next
  case Return
  then show ?thesis using in_flight_loop[OF assms(1)] by (simp add: safe_return_def safe_loop_starts)
next
  case (Throw x)
  then show ?thesis using in_flight_throw[OF assms(1)] by (simp add: safe_throw_frame)
next
  case Tick
  have "in_flight k n (snd (safe_tick s)) = in_flight k n s"
    by (rule in_flight_frame) (simp_all add: safe_tick_def split: list.split)
  moreover have "arrays (snd (safe_tick s)) = arrays s" "fst (safe_tick s) = [] \<or> (\<exists>cb e v. fst (safe_tick s) = [Called cb e v])"
    by (simp_all add: safe_tick_def split: list.split)
  ultimately show ?thesis using assms(1) Tick by auto
next
  case (Elapse d)
  have "in_flight k n (snd (safe_elapse d s)) = in_flight k n (s\<lparr>cache := cache (snd (safe_elapse d s))\<rparr>)"
    by (rule in_flight_frame) (simp_all add: safe_elapse_def)
  also have "\<dots>" using assms(1) by (simp add: in_flight_def safe_elapse_def expire_falsy)
  finally show ?thesis using Elapse by (simp add: safe_elapse_def)
qed

lemma in_flight_run:
  "in_flight k n s \<Longrightarrow> quiet t k s es \<Longrightarrow>
     in_flight k n (snd (safe_run t es s))
     \<and> arrays (snd (safe_run t es s)) n = arrays s n @ concat (map (waiting k) es)
     \<and> starts k (fst (safe_run t es s)) = []"
proof (induction es arbitrary: s)
  case Nil
  then show ?case by simp
next
  case (Cons e es)
  from Cons.prems have q: "\<not> completes s k e" "quiet t k (snd (safe_step t e s)) es" by auto
  from in_flight_step[OF Cons.prems(1) q(1), of t]
  have a: "in_flight k n (snd (safe_step t e s))"
    and b: "arrays (snd (safe_step t e s)) n = arrays s n @ waiting k e"
    and c: "starts k (fst (safe_step t e s)) = []" by auto
  from Cons.IH[OF a q(2)] b c show ?case
    by (simp add: split_beta starts_append)
qed

lemma safe_inv_init: "safe_inv {} safe_init"
  by (simp add: safe_inv_def inv_queue_def inv_ops_def inv_timers_def inv_running_def safe_init_def)

lemma expire_eq: "expire ts c k = (if k \<in> snd ` set ts then JFalse else c k)"
proof (induction ts arbitrary: c)
  case Nil
  then show ?case by simp
next
  case (Cons a ts)
  obtain d key where a: "a = (d, key)" by (cases a)
  have "expire (a # ts) c k = expire ts (c(key := JFalse)) k" by (simp add: a)
  also have "\<dots> = (if k \<in> snd ` set ts then JFalse else (c(key := JFalse)) k)" by (rule Cons.IH)
  finally show ?case by (auto simp: a)
qed

lemma inv_runningD:
  assumes "inv_running D s" and "f \<in> set (running s)"
  shows "fst f \<in> D" and "\<exists>k v. ops s (fst f) = Some (k, v) \<and> queue s k = Some (fst f)"
  using assms unfolding inv_running_def by blast+

lemma inv_running_top:
  assumes "inv_running D s" and "running s = (n, err, v) # rest"
  shows "n \<in> D" and "\<exists>k w. ops s n = Some (k, w) \<and> queue s k = Some n"
    and "n \<notin> fst ` set rest" and "distinct (map fst rest)"
proof -
  have m: "(n, err, v) \<in> set (running s)" using assms(2) by simp
  from inv_runningD[OF assms(1) m] show "n \<in> D"
    and "\<exists>k w. ops s n = Some (k, w) \<and> queue s k = Some n" by simp_all
  from assms have "distinct (map fst ((n, err, v) # rest))" unfolding inv_running_def by simp
  then show "n \<notin> fst ` set rest" and "distinct (map fst rest)" by simp_all
qed

lemma safe_inv_start:
  assumes "safe_inv D s" and "queue s key = None" and "\<not> truthy (cache s key)"
  shows "safe_inv D (s\<lparr>queue := (queue s)(key := Some (nextop s)),
        arrays := (arrays s)(nextop s := [callback]),
        ops := (ops s)(nextop s := Some (key, version)),
        nextop := Suc (nextop s)\<rparr>)" (is "safe_inv D ?s'")
proof -
  from assms have iq: "inv_queue D s" and io: "inv_ops D s" and it: "inv_timers s"
    and ir: "inv_running D s"
    by (simp_all add: safe_inv_def)
  have fresh: "ops s (nextop s) = None"
  proof (cases "ops s (nextop s)")
    case (Some kv)
    then show ?thesis using io unfolding inv_ops_def by (cases kv) fastforce
  qed simp
  have nD: "nextop s \<notin> D" using io unfolding inv_ops_def by blast
  have Dlt: "\<forall>n. n \<in> D \<longrightarrow> n < nextop s" using io unfolding inv_ops_def by blast
  have "inv_queue D ?s'"
    unfolding inv_queue_def
  proof (intro allI impI)
    fix k q assume a: "queue ?s' k = Some q"
    show "(\<exists>v. ops ?s' q = Some (k, v)) \<and> (q \<notin> D \<longrightarrow> \<not> truthy (cache ?s' k))"
    proof (cases "k = key")
      case True
      then show ?thesis using a assms(3) nD by simp
    next
      case False
      then have b: "queue s k = Some q" using a by simp
      with iq have c: "\<exists>v. ops s q = Some (k, v)" "q \<notin> D \<longrightarrow> \<not> truthy (cache s k)"
        unfolding inv_queue_def by blast+
      from c(1) fresh have "q \<noteq> nextop s" by auto
      then show ?thesis using c by simp
    qed
  qed
  moreover have "\<forall>n. n \<in> D \<longrightarrow> n < nextop ?s'" using Dlt by (simp add: less_Suc_eq)
  moreover have "\<forall>n k v. ops ?s' n = Some (k, v) \<longrightarrow> n < nextop ?s' \<and> (n \<notin> D \<longrightarrow> queue ?s' k = Some n)"
  proof (intro allI impI)
    fix n k v assume a: "ops ?s' n = Some (k, v)"
    show "n < nextop ?s' \<and> (n \<notin> D \<longrightarrow> queue ?s' k = Some n)"
    proof (cases "n = nextop s")
      case True
      then show ?thesis using a by simp
    next
      case False
      then have b: "ops s n = Some (k, v)" using a by simp
      with io have c: "n < nextop s" "n \<notin> D \<longrightarrow> queue s k = Some n"
        unfolding inv_ops_def by blast+
      have "k \<noteq> key \<or> n \<in> D" using c(2) assms(2) by auto
      then show ?thesis using c by auto
    qed
  qed
  moreover have "inv_timers ?s'" using it by (simp add: inv_timers_def)
  moreover have "inv_running D ?s'"
    unfolding inv_running_def
  proof (intro conjI ballI)
    show "distinct (map fst (running ?s'))" using ir unfolding inv_running_def by simp
  next
    fix f assume "f \<in> set (running ?s')"
    then have m: "f \<in> set (running s)" by simp
    from inv_runningD[OF ir m] obtain k v where d: "fst f \<in> D"
      and o: "ops s (fst f) = Some (k, v)" and q: "queue s k = Some (fst f)" by blast
    from o fresh have n1: "fst f \<noteq> nextop s" by auto
    from q assms(2) have n2: "k \<noteq> key" by auto
    show "fst f \<in> D" by (rule d)
    show "\<exists>k v. ops ?s' (fst f) = Some (k, v) \<and> queue ?s' k = Some (fst f)"
      using o q n1 n2 by simp
  qed
  ultimately show ?thesis unfolding safe_inv_def inv_ops_def by blast
qed

lemma safe_inv_frame:
  "queue s' = queue s \<Longrightarrow> ops s' = ops s \<Longrightarrow> cache s' = cache s \<Longrightarrow> nextop s' = nextop s
    \<Longrightarrow> timers s' = timers s \<Longrightarrow> running s' = running s \<Longrightarrow> safe_inv D s' = safe_inv D s"
  by (simp add: safe_inv_def inv_queue_def inv_ops_def inv_timers_def inv_running_def)

lemma safe_inv_call:
  assumes "safe_inv D s"
  shows "safe_inv D (snd (safe_call version rest callback s))"
proof (cases "valid_version version")
  case False
  then show ?thesis using assms by (simp add: safe_call_invalid)
next
  case True
  note v = True
  show ?thesis
  proof (cases "truthy (cache s (join '':'' (version # rest)))")
    case True
    have "safe_inv D (snd (safe_call version rest callback s)) = safe_inv D s"
      by (rule safe_inv_frame) (simp_all add: safe_call_cached[OF v True])
    with assms show ?thesis by simp
  next
    case False
    note nc = False
    show ?thesis
    proof (cases "queue s (join '':'' (version # rest))")
      case None
      show ?thesis using safe_inv_start[OF assms None nc]
        by (simp add: safe_call_start[OF v nc None])
    next
      case (Some q)
      have "safe_inv D (snd (safe_call version rest callback s)) = safe_inv D s"
        by (rule safe_inv_frame) (simp_all add: safe_call_queued[OF v nc Some])
      with assms show ?thesis by simp
    qed
  qed
qed

lemma safe_inv_pop:
  assumes "safe_inv D s" and "running s = f # rest"
  shows "safe_inv D (s\<lparr>running := rest\<rparr>)"
proof -
  from assms(1) have ir: "inv_running D s" by (simp add: safe_inv_def)
  have "inv_running D (s\<lparr>running := rest\<rparr>)"
    unfolding inv_running_def
  proof (intro conjI ballI)
    show "distinct (map fst (running (s\<lparr>running := rest\<rparr>)))"
      using ir assms(2) unfolding inv_running_def by simp
  next
    fix g assume "g \<in> set (running (s\<lparr>running := rest\<rparr>))"
    then have m: "g \<in> set (running s)" using assms(2) by simp
    from inv_runningD[OF ir m]
    show "fst g \<in> D"
      and "\<exists>k v. ops (s\<lparr>running := rest\<rparr>) (fst g) = Some (k, v) \<and> queue (s\<lparr>running := rest\<rparr>) k = Some (fst g)"
      by simp_all
  qed
  moreover have "inv_queue D (s\<lparr>running := rest\<rparr>) = inv_queue D s"
    by (simp add: inv_queue_def)
  moreover have "inv_ops D (s\<lparr>running := rest\<rparr>) = inv_ops D s"
    by (simp add: inv_ops_def)
  moreover have "inv_timers (s\<lparr>running := rest\<rparr>) = inv_timers s"
    by (simp add: inv_timers_def)
  ultimately show ?thesis using assms(1) unfolding safe_inv_def by blast
qed

lemma safe_inv_exit:
  assumes "safe_inv D s" and "running s = (n, err, v) # rest" and "ops s n = Some (key, version)"
  shows "safe_inv D (s\<lparr>queue := (queue s)(key := None), running := rest\<rparr>)" (is "safe_inv D ?s'")
proof -
  from assms have iq: "inv_queue D s" and io: "inv_ops D s" and it: "inv_timers s"
    and ir: "inv_running D s"
    by (simp_all add: safe_inv_def)
  from inv_running_top[OF ir assms(2)] assms(3)
  have nD: "n \<in> D" and qn: "queue s key = Some n" and nr: "n \<notin> fst ` set rest"
    and dr: "distinct (map fst rest)" by auto
  have "inv_queue D ?s'"
    unfolding inv_queue_def
  proof (intro allI impI)
    fix k q assume a: "queue ?s' k = Some q"
    then have "queue s k = Some q" by (simp split: if_splits)
    with iq show "(\<exists>v. ops ?s' q = Some (k, v)) \<and> (q \<notin> D \<longrightarrow> \<not> truthy (cache ?s' k))"
      unfolding inv_queue_def by simp
  qed
  moreover have "\<forall>m. m \<in> D \<longrightarrow> m < nextop ?s'" using io unfolding inv_ops_def by simp
  moreover have "\<forall>m k w. ops ?s' m = Some (k, w) \<longrightarrow> m < nextop ?s' \<and> (m \<notin> D \<longrightarrow> queue ?s' k = Some m)"
  proof (intro allI impI)
    fix m k w assume "ops ?s' m = Some (k, w)"
    then have a: "ops s m = Some (k, w)" by simp
    with io have c: "m < nextop s" "m \<notin> D \<longrightarrow> queue s k = Some m"
      unfolding inv_ops_def by blast+
    have "m \<notin> D \<longrightarrow> k \<noteq> key" using c(2) qn nD by auto
    then show "m < nextop ?s' \<and> (m \<notin> D \<longrightarrow> queue ?s' k = Some m)"
      using c by auto
  qed
  moreover have "inv_timers ?s'" using it by (simp add: inv_timers_def)
  moreover have "inv_running D ?s'"
    unfolding inv_running_def
  proof (intro conjI ballI)
    show "distinct (map fst (running ?s'))" using dr by simp
  next
    fix g assume g: "g \<in> set (running ?s')"
    then have m: "g \<in> set (running s)" using assms(2) by simp
    from inv_runningD[OF ir m] obtain k w where d: "fst g \<in> D"
      and o: "ops s (fst g) = Some (k, w)" and q: "queue s k = Some (fst g)" by blast
    from g nr have "fst g \<noteq> n" by auto
    with q qn have "k \<noteq> key" by auto
    then show "\<exists>k v. ops ?s' (fst g) = Some (k, v) \<and> queue ?s' k = Some (fst g)"
      using o q by simp
    show "fst g \<in> D" by (rule d)
  qed
  ultimately show ?thesis unfolding safe_inv_def inv_ops_def by blast
qed

lemma safe_inv_loop:
  assumes "safe_inv D s"
  shows "safe_inv D (snd (safe_loop s))"
proof (rule safe_loop_cases[of s])
  assume "running s = []" "safe_loop s = ([], s)"
  then show ?thesis using assms by simp
next
  fix n err v rest cb q
  assume l: "safe_loop s = ([Called cb err v], s\<lparr>arrays := (arrays s)(n := q)\<rparr>)"
  have "safe_inv D (s\<lparr>arrays := (arrays s)(n := q)\<rparr>) = safe_inv D s"
    by (rule safe_inv_frame) simp_all
  then show ?thesis using assms by (simp add: l)
next
  fix n err v rest key version
  assume r: "running s = (n, err, v) # rest" and o: "ops s n = Some (key, version)"
    and l: "safe_loop s = ([], s\<lparr>queue := (queue s)(key := None), running := rest\<rparr>)"
  show ?thesis using safe_inv_exit[OF assms r o] by (simp add: l)
next
  fix n err v rest
  assume r: "running s = (n, err, v) # rest" and l: "safe_loop s = ([], s\<lparr>running := rest\<rparr>)"
  show ?thesis using safe_inv_pop[OF assms r] by (simp add: l)
qed

lemma safe_inv_throw:
  assumes "safe_inv D s"
  shows "safe_inv D (snd (safe_throw e s))"
proof (cases "running s")
  case Nil
  then show ?thesis using assms by (simp add: safe_throw_def)
next
  case (Cons f rest)
  show ?thesis using safe_inv_pop[OF assms Cons] Cons by (simp add: safe_throw_def)
qed

lemma safe_inv_enter:
  assumes "safe_inv D s" and "ops s n = Some (key, version)" and "n \<notin> D"
  shows "safe_inv (insert n D)
     ((if truthy v then s\<lparr>cache := (cache s)(key := v), timers := timers s @ [(due, key)]\<rparr> else s)
        \<lparr>running := (n, err, v) # running s\<rparr>)" (is "safe_inv _ ?s'")
proof -
  from assms have iq: "inv_queue D s" and io: "inv_ops D s" and it: "inv_timers s"
    and ir: "inv_running D s"
    by (simp_all add: safe_inv_def)
  from io assms(2,3) have qk: "queue s key = Some n" and lt: "n < nextop s"
    unfolding inv_ops_def by blast+
  from iq qk assms(3) have ck: "\<not> truthy (cache s key)" unfolding inv_queue_def by blast
  from it ck have nt: "key \<notin> snd ` set (timers s)" unfolding inv_timers_def by blast
  have q': "queue ?s' = queue s" and o': "ops ?s' = ops s" and n': "nextop ?s' = nextop s"
    and r': "running ?s' = (n, err, v) # running s"
    and c': "cache ?s' = (if truthy v then (cache s)(key := v) else cache s)"
    and t': "timers ?s' = (if truthy v then timers s @ [(due, key)] else timers s)"
    by simp_all
  have "inv_queue (insert n D) ?s'"
    unfolding inv_queue_def q' o'
  proof (intro allI impI)
    fix k q assume a: "queue s k = Some q"
    with iq have c: "\<exists>v. ops s q = Some (k, v)" "q \<notin> D \<longrightarrow> \<not> truthy (cache s k)"
      unfolding inv_queue_def by blast+
    have "q \<notin> insert n D \<longrightarrow> \<not> truthy (cache ?s' k)"
    proof
      assume b: "q \<notin> insert n D"
      with a qk have "k \<noteq> key" by auto
      then show "\<not> truthy (cache ?s' k)" using c(2) b by (simp add: c')
    qed
    with c(1) show "(\<exists>v. ops s q = Some (k, v)) \<and> (q \<notin> insert n D \<longrightarrow> \<not> truthy (cache ?s' k))"
      by blast
  qed
  moreover have "inv_ops (insert n D) ?s'"
    using io lt unfolding inv_ops_def q' o' n' by blast
  moreover have "inv_timers ?s'"
    using it nt unfolding inv_timers_def c' t' by auto
  moreover have "inv_running (insert n D) ?s'"
    unfolding inv_running_def r' q' o'
  proof (intro conjI ballI)
    have "n \<notin> fst ` set (running s)" using inv_runningD(1)[OF ir] assms(3) by auto
    then show "distinct (map fst ((n, err, v) # running s))"
      using ir unfolding inv_running_def by simp
  next
    fix f assume "f \<in> set ((n, err, v) # running s)"
    then consider "f = (n, err, v)" | "f \<in> set (running s)" by auto
    then show "fst f \<in> insert n D"
    proof cases
      case 2
      from inv_runningD(1)[OF ir 2] show ?thesis by simp
    qed simp
  next
    fix f assume "f \<in> set ((n, err, v) # running s)"
    then consider "f = (n, err, v)" | "f \<in> set (running s)" by auto
    then show "\<exists>k v. ops s (fst f) = Some (k, v) \<and> queue s k = Some (fst f)"
    proof cases
      case 1
      then show ?thesis using assms(2) qk by simp
    next
      case 2
      from inv_runningD(2)[OF ir 2] show ?thesis .
    qed
  qed
  ultimately show ?thesis unfolding safe_inv_def by blast
qed

lemma safe_inv_done:
  assumes "safe_inv D s" and "ops s n = Some (key, version)" and "n \<notin> D"
  shows "safe_inv (insert n D) (snd (safe_done t n err v s))"
  unfolding safe_done_Some[OF assms(2)]
  by (rule safe_inv_loop) (rule safe_inv_enter[OF assms])


lemma distinct_snd_unique:
  "distinct (map snd ts) \<Longrightarrow> (a, k) \<in> set ts \<Longrightarrow> (b, k) \<in> set ts \<Longrightarrow> a = b"
  by (induction ts) (auto simp: image_iff)


lemma safe_inv_tick: "safe_inv D s \<Longrightarrow> safe_inv D (snd (safe_tick s))"
proof -
  have "safe_inv D (snd (safe_tick s)) = safe_inv D s"
    by (rule safe_inv_frame) (simp_all add: safe_tick_def split: list.split)
  then show "safe_inv D s \<Longrightarrow> safe_inv D (snd (safe_tick s))" by simp
qed


lemma safe_inv_elapse:
  assumes "safe_inv D s"
  shows "safe_inv D (snd (safe_elapse d s))" (is "safe_inv _ ?s'")
proof -
  from assms have iq: "inv_queue D s" and io: "inv_ops D s" and it: "inv_timers s"
    and ir: "inv_running D s"
    by (simp_all add: safe_inv_def)
  have "inv_queue D ?s'" using iq unfolding inv_queue_def
    by (auto simp: safe_elapse_def expire_eq)
  moreover have "inv_ops D ?s'" using io unfolding inv_ops_def
    by (simp add: safe_elapse_def)
  moreover have "inv_timers ?s'"
  proof -
    from it have di: "distinct (map snd (timers s))"
      and fa: "\<And>k. \<not> truthy (cache s k) \<Longrightarrow> k \<notin> snd ` set (timers s)"
      unfolding inv_timers_def by blast+
    have "distinct (map snd (filter (\<lambda>t. \<not> fst t \<le> now s + d) (timers s)))"
      using di by (rule distinct_map_filter)
    moreover have "k \<notin> snd ` set (filter (\<lambda>t. \<not> fst t \<le> now s + d) (timers s))"
      if f: "\<not> truthy (expire (filter (\<lambda>t. fst t \<le> now s + d) (timers s)) (cache s) k)" for k
    proof (cases "k \<in> snd ` set (filter (\<lambda>t. fst t \<le> now s + d) (timers s))")
      case True
      then obtain a where a: "(a, k) \<in> set (timers s)" "a \<le> now s + d" by auto
      show ?thesis
      proof
        assume "k \<in> snd ` set (filter (\<lambda>t. \<not> fst t \<le> now s + d) (timers s))"
        then obtain b where b: "(b, k) \<in> set (timers s)" "\<not> b \<le> now s + d" by auto
        from a b have "a \<noteq> b" by auto
        with distinct_snd_unique[OF di a(1) b(1)] show False by simp
      qed
    next
      case False
      with f have "\<not> truthy (cache s k)" by (simp add: expire_eq)
      then have "k \<notin> snd ` set (timers s)" by (rule fa)
      then show ?thesis by auto
    qed
    ultimately show ?thesis unfolding inv_timers_def by (simp add: safe_elapse_def)
  qed
  moreover have "inv_running D ?s'" using ir unfolding inv_running_def
    by (simp add: safe_elapse_def)
  ultimately show ?thesis by (simp add: safe_inv_def)
qed


lemma orderly_step:
  assumes "safe_inv (set D) s" and "orderly t D s (e # es)"
  shows "safe_inv (set (rev (dones [e]) @ D)) (snd (safe_step t e s))"
    and "orderly t (rev (dones [e]) @ D) (snd (safe_step t e s)) es"
proof -
  have "safe_inv (set (rev (dones [e]) @ D)) (snd (safe_step t e s))
      \<and> orderly t (rev (dones [e]) @ D) (snd (safe_step t e s)) es"
  proof (cases e)
    case (Call version rest callback)
    with assms show ?thesis by (simp add: safe_inv_call)
  next
    case (Done n err v)
    with assms obtain key version where o: "ops s n = Some (key, version)" and nD: "n \<notin> set D"
      and r: "orderly t (n # D) (snd (safe_step t e s)) es" by auto
    from safe_inv_done[OF assms(1) o nD, of t err v] r show ?thesis using Done by simp
  next
    case Return
    with assms show ?thesis by (simp add: safe_inv_loop safe_return_def)
  next
    case (Throw x)
    with assms show ?thesis by (simp add: safe_inv_throw)
  next
    case Tick
    with assms show ?thesis by (simp add: safe_inv_tick)
  next
    case (Elapse d)
    with assms show ?thesis by (simp add: safe_inv_elapse)
  qed
  then show "safe_inv (set (rev (dones [e]) @ D)) (snd (safe_step t e s))"
    and "orderly t (rev (dones [e]) @ D) (snd (safe_step t e s)) es" by simp_all
qed

lemma dones_Cons: "dones (e # es) = dones [e] @ dones es"
  by (cases e) simp_all

lemma safe_inv_run:
  "safe_inv (set D) s \<Longrightarrow> orderly t D s es \<Longrightarrow>
     safe_inv (set (rev (dones es) @ D)) (snd (safe_run t es s))"
proof (induction es arbitrary: s D)
  case Nil
  then show ?case by simp
next
  case (Cons e es)
  from Cons.IH[OF orderly_step[OF Cons.prems]]
  show ?case by (simp add: split_beta dones_Cons[of e es])
qed


lemma orderly_append:
  "orderly t D s (a @ b) = (orderly t D s a \<and> orderly t (rev (dones a) @ D) (snd (safe_run t a s)) b)"
proof (induction a arbitrary: s D)
  case Nil
  then show ?case by simp
next
  case (Cons e a)
  show ?case by (cases e) (simp_all add: Cons.IH split_beta)
qed

lemma safe_run_append:
  "safe_run t (a @ b) s =
     (fst (safe_run t a s) @ fst (safe_run t b (snd (safe_run t a s))),
      snd (safe_run t b (snd (safe_run t a s))))"
  by (induction a arbitrary: s) (simp_all add: split_beta)


lemma orderly_quiet:
  "safe_inv (set D) s \<Longrightarrow> in_flight k n s \<Longrightarrow> orderly t D s es \<Longrightarrow> n \<notin> set (dones es)
     \<Longrightarrow> quiet t k s es"
proof (induction es arbitrary: s D)
  case Nil
  then show ?case by simp
next
  case (Cons e es)
  have nc: "\<not> completes s k e"
  proof (cases e)
    case (Done m err v)
    with Cons.prems(3) obtain k' ver where o: "ops s m = Some (k', ver)" and mD: "m \<notin> set D" by auto
    from Cons.prems(1) o mD have "queue s k' = Some m"
      unfolding safe_inv_def inv_ops_def by blast
    moreover from Cons.prems(2) have "queue s k = Some n" by (simp add: in_flight_def)
    moreover from Cons.prems(4) Done have "m \<noteq> n" by auto
    ultimately have "k' \<noteq> k" by auto
    then show ?thesis using Done o by simp
  qed simp_all
  from in_flight_step[OF Cons.prems(2) nc, of t]
  have fl: "in_flight k n (snd (safe_step t e s))" by simp
  from Cons.prems(4) have nn: "n \<notin> set (dones es)" by (simp add: dones_Cons[of e es])
  from Cons.IH[OF orderly_step(1)[OF Cons.prems(1,3)] fl orderly_step(2)[OF Cons.prems(1,3)] nn] nc
  show ?case
    by (simp add: fl)
qed


lemma safe_inv_reach:
  "orderly t [] safe_init es \<Longrightarrow> safe_inv (set (dones es)) (snd (safe_run t es safe_init))"
  using safe_inv_run[of "[]" safe_init t es] by (simp add: safe_inv_init)


lemma in_flight_after_start:
  assumes "safe_inv D s" and "valid_version version" and "k = join '':'' (version # rest)"
    and "\<not> truthy (cache s k)" and "queue s k = None"
  shows "in_flight k (nextop s) (snd (safe_call version rest c0 s))"
proof -
  from assms(1) have ir: "inv_running D s" by (simp add: safe_inv_def)
  have fresh: "ops s (nextop s) = None"
  proof (cases "ops s (nextop s)")
    case (Some kv)
    then show ?thesis using assms(1) unfolding safe_inv_def inv_ops_def by (cases kv) fastforce
  qed simp
  have fq: "queue s k' \<noteq> Some (nextop s)" for k'
  proof
    assume "queue s k' = Some (nextop s)"
    with assms(1) obtain v where "ops s (nextop s) = Some (k', v)"
      unfolding safe_inv_def inv_queue_def by blast
    with fresh show False by simp
  qed
  let ?s' = "s\<lparr>queue := (queue s)(k := Some (nextop s)),
        arrays := (arrays s)(nextop s := [c0]),
        ops := (ops s)(nextop s := Some (k, version)),
        nextop := Suc (nextop s)\<rparr>"
  have "in_flight k (nextop s) ?s'"
  proof (rule in_flightI)
    show "queue ?s' k = Some (nextop s)" by simp
    show "ops ?s' (nextop s) = Some (k, version)" by simp
    show "nextop s < nextop ?s'" by simp
    show "\<not> truthy (cache ?s' k)" using assms(4) by simp
    show "queue ?s' k' \<noteq> Some (nextop s)" if "k' \<noteq> k" for k' using that fq[of k'] by simp
    show "ops ?s' (fst f) \<noteq> Some (k, w)" if "f \<in> set (running ?s')" for f w
    proof -
      from that have m: "f \<in> set (running s)" by simp
      from inv_runningD(2)[OF ir m] obtain k' v where o: "ops s (fst f) = Some (k', v)"
        and q: "queue s k' = Some (fst f)" by blast
      from o fresh have "fst f \<noteq> nextop s" by auto
      moreover from q assms(5) have "k' \<noteq> k" by auto
      ultimately show ?thesis using o by simp
    qed
  qed
  then show ?thesis using assms(2-5) by (simp add: safe_call_start)
qed

lemma safe_call_frame:
  "now (snd (safe_call version rest callback s)) = now s"
  "cache (snd (safe_call version rest callback s)) = cache s"
  "timers (snd (safe_call version rest callback s)) = timers s"
  by (rule safe_call_cases[where version=version and rest=rest and callback=callback and s=s]; simp)+







lemma safe_call_queue_cached:
  assumes "truthy (cache s k)"
  shows "queue (snd (safe_call version rest callback s)) k = queue s k"
  using assms
  by (rule_tac safe_call_cases[where version=version and rest=rest and callback=callback and s=s]) auto











lemmas safe_eval = safe_init_def safe_call_def safe_done_def safe_loop_def safe_return_def
  safe_throw_def safe_tick_def safe_elapse_def Let_def valid_version_def CACHE_LIFE_def

lemma loopingD:
  assumes "looping k n err v base s"
  shows "running s = (n, err, v) # base" and "queue s k = Some n"
    and "\<exists>ver. ops s n = Some (k, ver)" and "n < nextop s"
    and "\<And>k'. k' \<noteq> k \<Longrightarrow> queue s k' \<noteq> Some n"
    and "truthy (cache s k) = truthy v"
  using assms unfolding looping_def by blast+

lemma looping_frame:
  "running s' = running s \<Longrightarrow> queue s' = queue s \<Longrightarrow> ops s' = ops s \<Longrightarrow> nextop s' = nextop s
     \<Longrightarrow> cache s' k = cache s k \<Longrightarrow> looping k n err v base s' = looping k n err v base s"
  by (simp add: looping_def)

lemma pushes_Nil [simp]: "pushes k v [] = []"
  by (simp add: pushes_def)

lemma pushes_Cons: "pushes k v (e # es) = pushes k v [e] @ pushes k v es"
  by (simp add: pushes_def)

lemma pushes_Return [simp]: "pushes k v [Return] = []"
  by (simp add: pushes_def)

lemma looping_call:
  assumes "looping k n err v base s"
  shows "looping k n err v base (snd (safe_call version rest callback s))
     \<and> arrays (snd (safe_call version rest callback s)) n
         = arrays s n @ pushes k v [Call version rest callback]
     \<and> starts k (fst (safe_call version rest callback s)) = []"
proof (rule safe_call_cases[where version=version and rest=rest and callback=callback and s=s])
  assume "\<not> valid_version version"
    and "safe_call version rest callback s =
        ([Called callback (Some (JErr PlainError (''Invalid version '' @ version) False)) JUndefined], s)"
  then show ?thesis using assms by (simp add: pushes_def)
next
  assume v: "valid_version version" and c: "truthy (cache s (join '':'' (version # rest)))"
    and l: "safe_call version rest callback s =
        ([], s\<lparr>ticks := ticks s @ [(callback, join '':'' (version # rest))]\<rparr>)"
  have p: "pushes k v [Call version rest callback] = []"
    using c loopingD(6)[OF assms] by (auto simp: pushes_def)
  have "looping k n err v base (s\<lparr>ticks := ticks s @ [(callback, join '':'' (version # rest))]\<rparr>)
      = looping k n err v base s"
    by (rule looping_frame) simp_all
  then show ?thesis using assms p by (simp add: l)
next
  fix q
  assume v: "valid_version version" and c: "\<not> truthy (cache s (join '':'' (version # rest)))"
    and qq: "queue s (join '':'' (version # rest)) = Some q"
    and l: "safe_call version rest callback s =
        ([], s\<lparr>arrays := (arrays s)(q := arrays s q @ [callback])\<rparr>)"
  have "looping k n err v base (s\<lparr>arrays := (arrays s)(q := arrays s q @ [callback])\<rparr>)
      = looping k n err v base s"
    by (rule looping_frame) simp_all
  with assms have f: "looping k n err v base (s\<lparr>arrays := (arrays s)(q := arrays s q @ [callback])\<rparr>)"
    by simp
  show ?thesis
  proof (cases "join '':'' (version # rest) = k")
    case True
    with qq loopingD(2)[OF assms] have "q = n" by simp
    moreover from True c loopingD(6)[OF assms] have "\<not> truthy v" by simp
    ultimately show ?thesis using f v True by (simp add: l pushes_def)
  next
    case False
    with qq loopingD(5)[OF assms False] have "q \<noteq> n" by auto
    then show ?thesis using f False by (simp add: l pushes_def)
  qed
next
  assume v: "valid_version version" and c: "\<not> truthy (cache s (join '':'' (version # rest)))"
    and qq: "queue s (join '':'' (version # rest)) = None"
    and l: "safe_call version rest callback s =
        ([Started (nextop s) (version # rest)],
         s\<lparr>queue := (queue s)(join '':'' (version # rest) := Some (nextop s)),
           arrays := (arrays s)(nextop s := [callback]),
           ops := (ops s)(nextop s := Some (join '':'' (version # rest), version)),
           nextop := Suc (nextop s)\<rparr>)"
  let ?key = "join '':'' (version # rest)"
  let ?s' = "s\<lparr>queue := (queue s)(?key := Some (nextop s)),
           arrays := (arrays s)(nextop s := [callback]),
           ops := (ops s)(nextop s := Some (?key, version)),
           nextop := Suc (nextop s)\<rparr>"
  from qq loopingD(2)[OF assms] have ne: "?key \<noteq> k" by auto
  from loopingD(4)[OF assms] have nn: "n \<noteq> nextop s" by simp
  from loopingD(3)[OF assms] obtain w where o: "ops s n = Some (k, w)" by blast
  have "looping k n err v base ?s'"
    unfolding looping_def
  proof (intro conjI allI impI)
    show "running ?s' = (n, err, v) # base" using loopingD(1)[OF assms] by simp
    show "queue ?s' k = Some n" using ne loopingD(2)[OF assms] by simp
    show "\<exists>ver. ops ?s' n = Some (k, ver)" using nn o by simp
    show "n < nextop ?s'" using loopingD(4)[OF assms] by simp
    show "queue ?s' k' \<noteq> Some n" if "k' \<noteq> k" for k'
      using loopingD(5)[OF assms that] nn by simp
    show "truthy (cache ?s' k) = truthy v" using loopingD(6)[OF assms] by simp
  qed
  then show ?thesis using ne nn by (simp add: l pushes_def)
qed

lemma looping_shift:
  assumes "looping k n err v base s" and "arrays s n = cb # q"
  shows "safe_loop s = ([Called cb err v], s\<lparr>arrays := (arrays s)(n := q)\<rparr>)"
    and "looping k n err v base (s\<lparr>arrays := (arrays s)(n := q)\<rparr>)"
proof -
  show "safe_loop s = ([Called cb err v], s\<lparr>arrays := (arrays s)(n := q)\<rparr>)"
    by (rule safe_loop_shift[OF loopingD(1)[OF assms(1)] assms(2)])
  have "looping k n err v base (s\<lparr>arrays := (arrays s)(n := q)\<rparr>) = looping k n err v base s"
    by (rule looping_frame) simp_all
  with assms(1) show "looping k n err v base (s\<lparr>arrays := (arrays s)(n := q)\<rparr>)" by simp
qed

lemma looping_exit:
  assumes "looping k n err v base s" and "arrays s n = []"
  shows "safe_loop s = ([], s\<lparr>queue := (queue s)(k := None), running := base\<rparr>)"
proof -
  from loopingD(3)[OF assms(1)] obtain ver where o: "ops s n = Some (k, ver)" by blast
  show ?thesis by (rule safe_loop_exit[OF loopingD(1)[OF assms(1)] assms(2) o])
qed

text \<open>
  While the loop of a completion closure runs and its waiters return: the loop calls the
  waiters of the array in their order, those that were there and those that calls for the key
  add, each with the arguments of the closure; no call applies the wrapped function for the
  key; and the return that finds the array empty ends the closure with \<^verbatim>\<open>queue[key] = false\<close>.
\<close>

lemma loop_phase:
  "looping k n err v base s \<Longrightarrow> during (length base) t s fs \<Longrightarrow>
     returned t s fs = map (\<lambda>cb. Called cb err v) (take (returns fs) (arrays s n @ pushes k v fs))
   \<and> starts k (fst (safe_run t fs s)) = []
   \<and> cache (snd (safe_run t fs s)) = cache s
   \<and> timers (snd (safe_run t fs s)) = timers s
   \<and> now (snd (safe_run t fs s)) = now s
   \<and> (if returns fs \<le> length (arrays s n @ pushes k v fs)
       then looping k n err v base (snd (safe_run t fs s))
          \<and> arrays (snd (safe_run t fs s)) n = drop (returns fs) (arrays s n @ pushes k v fs)
       else running (snd (safe_run t fs s)) = base \<and> queue (snd (safe_run t fs s)) k = None
          \<and> returns fs = Suc (length (arrays s n @ pushes k v fs)))"
proof (induction fs arbitrary: s)
  case Nil
  then show ?case by simp
next
  case (Cons e es)
  from Cons.prems(2) have we: "waiter_event e"
    and du: "during (length base) t (snd (safe_step t e s)) es" by simp_all
  show ?case
  proof (cases e)
    case (Call version rest callback)
    let ?s1 = "snd (safe_call version rest callback s)"
    from looping_call[OF Cons.prems(1), of version rest callback]
    have l1: "looping k n err v base ?s1"
      and a1: "arrays ?s1 n = arrays s n @ pushes k v [e]"
      and s1: "starts k (fst (safe_call version rest callback s)) = []"
      using Call by simp_all
    from du Call have d1: "during (length base) t ?s1 es" by simp
    have ap: "arrays ?s1 n @ pushes k v es = arrays s n @ pushes k v (e # es)"
      by (simp add: a1 pushes_Cons[of k v e es])
    define W where "W = arrays s n @ pushes k v (e # es)"
    note ih = Cons.IH[OF l1 d1, unfolded ap, folded W_def]
    have r: "returns (e # es) = returns es" "returned t s (e # es) = returned t ?s1 es"
      using Call by simp_all
    have f: "cache ?s1 = cache s" "timers ?s1 = timers s" "now ?s1 = now s"
      by (simp_all add: safe_call_frame)
    have run: "safe_run t (e # es) s
        = (fst (safe_call version rest callback s) @ fst (safe_run t es ?s1), snd (safe_run t es ?s1))"
      using Call by (simp add: split_beta)
    show ?thesis unfolding r run W_def[symmetric] using ih s1 f by (simp add: starts_append)
  next
    case Return
    show ?thesis
    proof (cases "arrays s n")
      case (Cons cb q)
      let ?s1 = "s\<lparr>arrays := (arrays s)(n := q)\<rparr>"
      note sh = looping_shift[OF Cons.prems(1) Cons]
      from du Return have d1: "during (length base) t ?s1 es"
        by (simp add: safe_return_def sh(1))
      have a1: "arrays ?s1 n = q" by simp
      define W where "W = q @ pushes k v es"
      note ih = Cons.IH[OF sh(2) d1, unfolded a1, folded W_def]
      have p: "arrays s n @ pushes k v (e # es) = cb # W"
        using Return Cons by (simp add: pushes_Cons[of k v Return es] W_def)
      have r: "returns (e # es) = Suc (returns es)"
        "returned t s (e # es) = Called cb err v # returned t ?s1 es"
        using Return by (simp_all add: safe_return_def sh(1))
      have run: "safe_run t (e # es) s
        = (Called cb err v # fst (safe_run t es ?s1), snd (safe_run t es ?s1))"
        using Return by (simp add: split_beta safe_return_def sh(1))
      show ?thesis unfolding r run p using ih by simp
    next
      case Nil
      let ?s1 = "s\<lparr>queue := (queue s)(k := None), running := base\<rparr>"
      note ex = looping_exit[OF Cons.prems(1) Nil]
      from du Return have d1: "during (length base) t ?s1 es"
        by (simp add: safe_return_def ex)
      have es: "es = []"
      proof (cases es)
        case (Cons x xs)
        with d1 show ?thesis by simp
      qed simp
      show ?thesis using Return Nil by (simp add: es safe_return_def ex)
    qed
  qed (use we in simp_all)
qed

lemma in_flight_of_inv:
  assumes "safe_inv D s" and "ops s n = Some (k, ver)" and "n \<notin> D"
  shows "in_flight k n s"
proof (rule in_flightI)
  from assms have iq: "inv_queue D s" and io: "inv_ops D s" and ir: "inv_running D s"
    by (simp_all add: safe_inv_def)
  from io assms(2,3) show q: "queue s k = Some n" and "n < nextop s"
    unfolding inv_ops_def by blast+
  show "ops s n = Some (k, ver)" by (rule assms(2))
  from iq q assms(3) show "\<not> truthy (cache s k)" unfolding inv_queue_def by blast
  show "queue s k' \<noteq> Some n" if "k' \<noteq> k" for k'
  proof
    assume "queue s k' = Some n"
    with iq obtain w where "ops s n = Some (k', w)" unfolding inv_queue_def by blast
    with assms(2) that show False by simp
  qed
  show "ops s (fst f) \<noteq> Some (k, w)" if "f \<in> set (running s)" for f w
  proof
    assume a: "ops s (fst f) = Some (k, w)"
    from inv_runningD[OF ir that] obtain k' w' where d: "fst f \<in> D"
      and o: "ops s (fst f) = Some (k', w')" and q': "queue s k' = Some (fst f)" by blast
    from a o have "k' = k" by simp
    with q q' have "fst f = n" by simp
    with d assms(3) show False by simp
  qed
qed

text \<open>
  The completion closure of an operation in flight, from its call to the end of its loop or as
  far as the waiters have returned.
\<close>

lemma done_phase:
  assumes fl: "in_flight k n s"
    and du: "during (length (running s)) t (snd (safe_done t n err v s)) fs"
  defines "s1 \<equiv> snd (safe_done t n err v s)"
  defines "s2 \<equiv> snd (safe_run t fs (snd (safe_done t n err v s)))"
  defines "W \<equiv> arrays s n @ pushes k v fs"
  shows "fst (safe_done t n err v s) @ returned t s1 fs
           = map (\<lambda>cb. Called cb err v) (take (Suc (returns fs)) W)"
    and "starts k (fst (safe_run t fs s1)) = []"
    and "cache s2 = cache s1" and "timers s2 = timers s1" and "now s2 = now s1"
    and "returns fs < length W \<Longrightarrow> looping k n err v (running s) s2"
    and "returns fs < length W \<Longrightarrow> arrays s2 n = drop (Suc (returns fs)) W"
    and "\<not> returns fs < length W \<Longrightarrow> returns fs = length W"
    and "\<not> returns fs < length W \<Longrightarrow> running s2 = running s"
    and "\<not> returns fs < length W \<Longrightarrow> queue s2 k = None"
proof -
  from in_flightD(2)[OF fl] obtain ver where o: "ops s n = Some (k, ver)" by blast
  let ?pre = "(if truthy v then
                   s\<lparr>cache := (cache s)(k := v),
                     timers := timers s @
                       [(now s + (if ver = ''fs'' then CACHE_LIFE t ! 1 else CACHE_LIFE t ! 0), k)]\<rparr>
                 else s)\<lparr>running := (n, err, v) # running s\<rparr>"
  have d: "safe_done t n err v s = safe_loop ?pre" by (rule safe_done_Some[OF o])
  have lp: "looping k n err v (running s) ?pre"
    unfolding looping_def
  proof (intro conjI allI impI)
    show "running ?pre = (n, err, v) # running s" by simp
    show "queue ?pre k = Some n" using in_flightD(1)[OF fl] by simp
    show "\<exists>ver. ops ?pre n = Some (k, ver)" using o by simp
    show "n < nextop ?pre" using in_flightD(3)[OF fl] by simp
    show "queue ?pre k' \<noteq> Some n" if "k' \<noteq> k" for k'
      using in_flightD(5)[OF fl that] by simp
    show "truthy (cache ?pre k) = truthy v" using in_flightD(4)[OF fl] by simp
  qed
  have ap: "arrays ?pre n = arrays s n" by simp
  have all: "(fst (safe_done t n err v s) @ returned t s1 fs
           = map (\<lambda>cb. Called cb err v) (take (Suc (returns fs)) W))
    \<and> starts k (fst (safe_run t fs s1)) = []
    \<and> cache s2 = cache s1 \<and> timers s2 = timers s1 \<and> now s2 = now s1
    \<and> (returns fs < length W \<longrightarrow> looping k n err v (running s) s2
          \<and> arrays s2 n = drop (Suc (returns fs)) W)
    \<and> (\<not> returns fs < length W \<longrightarrow> returns fs = length W \<and> running s2 = running s
          \<and> queue s2 k = None)"
  proof (cases "arrays s n")
    case Nil
    have l: "safe_loop ?pre = ([], ?pre\<lparr>queue := (queue ?pre)(k := None), running := running s\<rparr>)"
      by (rule looping_exit[OF lp]) (simp add: Nil)
    have r1: "running s1 = running s" unfolding s1_def d l by simp
    have fs: "fs = []"
    proof (cases fs)
      case (Cons x xs)
      with du[folded s1_def] r1 show ?thesis by simp
    qed simp
    have q1: "queue s1 k = None" unfolding s1_def d l by simp
    have o1: "fst (safe_done t n err v s) = []" unfolding d l by simp
    have s21: "s2 = s1" unfolding s2_def s1_def by (simp add: fs)
    show ?thesis unfolding s21 o1 using r1 q1 by (simp add: fs W_def Nil)
  next
    case (Cons cb q)
    have a: "arrays ?pre n = cb # q" by (simp add: Cons)
    note sh = looping_shift[OF lp a]
    have s1: "s1 = ?pre\<lparr>arrays := (arrays ?pre)(n := q)\<rparr>" unfolding s1_def d sh(1) by simp
    have o1: "fst (safe_done t n err v s) = [Called cb err v]" unfolding d sh(1) by simp
    have l1: "looping k n err v (running s) s1" unfolding s1 by (rule sh(2))
    have a1: "arrays s1 n = q" unfolding s1 by simp
    define V where "V = q @ pushes k v fs"
    have w: "W = cb # V" by (simp add: W_def V_def Cons)
    note ph = loop_phase[OF l1 du[folded s1_def], unfolded a1, folded V_def, folded s2_def[unfolded s1_def[symmetric]]]
    show ?thesis unfolding o1 w using ph by simp
  qed
  from all show "fst (safe_done t n err v s) @ returned t s1 fs
           = map (\<lambda>cb. Called cb err v) (take (Suc (returns fs)) W)"
    and "starts k (fst (safe_run t fs s1)) = []"
    and "cache s2 = cache s1" and "timers s2 = timers s1" and "now s2 = now s1"
    and "returns fs < length W \<Longrightarrow> looping k n err v (running s) s2"
    and "returns fs < length W \<Longrightarrow> arrays s2 n = drop (Suc (returns fs)) W"
    and "\<not> returns fs < length W \<Longrightarrow> returns fs = length W"
    and "\<not> returns fs < length W \<Longrightarrow> running s2 = running s"
    and "\<not> returns fs < length W \<Longrightarrow> queue s2 k = None"
    by blast+
qed

text \<open>
  Claim C1, as the code has it. Take any orderly history, and a call that finds no cached value
  and no waiter array for its key \<open>k\<close>. The call applies the wrapped function, once. Whatever
  happens next, as long as the operation has not completed: no step applies the wrapped
  function again for \<open>k\<close>, however many callers ask for \<open>k\<close>. When the operation completes
  with an error and a value, the loop of its completion closure begins; as long as the waiters
  that it calls return (they may call the decorated function before they do), the loop calls
  the first caller and every caller that asked for \<open>k\<close> with a valid version tag since, and
  those that ask while the loop runs and find no cached value, in the order in which they
  arrived, each with that same error and value, and no call applies the wrapped function for
  \<open>k\<close>; the return of the last of them ends the loop, and then the waiter array of the key is
  dropped.
\<close>

theorem safe_coalesces_in_flight:
  assumes "orderly t [] safe_init (es0 @ Call version rest c0 # es)"
    and "s = snd (safe_run t es0 safe_init)"
    and "valid_version version" and "k = join '':'' (version # rest)"
    and "\<not> truthy (cache s k)" and "queue s k = None"
    and "nextop s \<notin> set (dones es)"
    and "s1 = snd (safe_step t (Call version rest c0) s)"
    and "s2 = snd (safe_run t es s1)"
    and "s3 = snd (safe_step t (Done (nextop s) err v) s2)"
    and "during (length (running s2)) t s3 fs"
    and "s4 = snd (safe_run t fs s3)"
    and "W = c0 # concat (map (waiting k) es) @ pushes k v fs"
  shows "fst (safe_step t (Call version rest c0) s) = [Started (nextop s) (version # rest)]
     \<and> starts k (fst (safe_run t es s1)) = []
     \<and> starts k (fst (safe_step t (Done (nextop s) err v) s2)) = []
     \<and> starts k (fst (safe_run t fs s3)) = []
     \<and> fst (safe_step t (Done (nextop s) err v) s2) @ returned t s3 fs
         = map (\<lambda>cb. Called cb err v) (take (Suc (returns fs)) W)
     \<and> (returns fs < length W \<longrightarrow> running s4 = (nextop s, err, v) # running s2)
     \<and> (\<not> returns fs < length W \<longrightarrow>
           returns fs = length W \<and> running s4 = running s2 \<and> queue s4 k = None)"
proof -
  from assms(1) have o0: "orderly t [] safe_init es0"
    and o1: "orderly t (rev (dones es0)) s1 es"
    using assms(2,8) by (simp_all add: orderly_append)
  have inv: "safe_inv (set (rev (dones es0))) s"
    using safe_inv_reach[OF o0] assms(2) by simp
  have inv1: "safe_inv (set (rev (dones es0))) s1"
    using safe_inv_call[OF inv] assms(8) by simp
  have fl: "in_flight k (nextop s) s1"
    using in_flight_after_start[OF inv assms(3,4,5,6)] assms(8) by simp
  have q: "quiet t k s1 es" by (rule orderly_quiet[OF inv1 fl o1 assms(7)])
  from in_flight_run[OF fl q]
  have fl2: "in_flight k (nextop s) s2"
    and arr: "arrays s2 (nextop s) = arrays s1 (nextop s) @ concat (map (waiting k) es)"
    and st: "starts k (fst (safe_run t es s1)) = []"
    using assms(9) by simp_all
  have a1: "arrays s1 (nextop s) = [c0]"
    using assms(3,4,5,6,8) by (simp add: safe_call_start)
  have w: "arrays s2 (nextop s) @ pushes k v fs = W" by (simp add: arr a1 assms(13))
  from in_flightD(2)[OF fl2] obtain ver where o: "ops s2 (nextop s) = Some (k, ver)" by blast
  have du: "during (length (running s2)) t (snd (safe_done t (nextop s) err v s2)) fs"
    using assms(10,11) by simp
  note ph = done_phase[OF fl2 du, unfolded w]
  have c1: "fst (safe_step t (Call version rest c0) s) = [Started (nextop s) (version # rest)]"
    using assms(3,4,5,6) by (simp add: safe_call_start)
  have c3: "starts k (fst (safe_step t (Done (nextop s) err v) s2)) = []"
    by (simp add: safe_done_Some[OF o] safe_loop_starts)
  have c4: "starts k (fst (safe_run t fs s3))= []"
    using ph(2) assms(10) by simp
  have c5: "fst (safe_step t (Done (nextop s) err v) s2) @ returned t s3 fs
         = map (\<lambda>cb. Called cb err v) (take (Suc (returns fs)) W)"
    using ph(1) assms(10) by simp
  have c6: "running s4 = (nextop s, err, v) # running s2" if "returns fs < length W"
    using loopingD(1)[OF ph(6)[OF that]] assms(10,12) by simp
  have c7: "returns fs = length W \<and> running s4 = running s2 \<and> queue s4 k = None"
    if "\<not> returns fs < length W"
    using ph(8,9,10)[OF that] assms(10,12) by simp
  show ?thesis using c1 st c3 c4 c5 c6 c7 by blast
qed

theorem safe_coalesces_in_flight_witness:
  "fst (safe_run False
          [Call ''fs'' [''a''] 1, Call ''fs'' [''a''] 2, Call ''fs'' [''b''] 3, Tick, Call ''fs'' [''a''] 4,
           Done 0 (Some (JErr PlainError ''boom'' False)) JUndefined, Return, Call ''fs'' [''a''] 5, Return,
           Return, Return] safe_init)
     = [Started 0 [''fs'', ''a''], Started 1 [''fs'', ''b''],
        Called 1 (Some (JErr PlainError ''boom'' False)) JUndefined,
        Called 2 (Some (JErr PlainError ''boom'' False)) JUndefined,
        Called 4 (Some (JErr PlainError ''boom'' False)) JUndefined,
        Called 5 (Some (JErr PlainError ''boom'' False)) JUndefined]
   \<and> queue (snd (safe_run False
          [Call ''fs'' [''a''] 1, Call ''fs'' [''a''] 2, Call ''fs'' [''b''] 3, Tick, Call ''fs'' [''a''] 4,
           Done 0 (Some (JErr PlainError ''boom'' False)) JUndefined, Return, Call ''fs'' [''a''] 5, Return,
           Return, Return] safe_init)) ''fs:a'' = None"
proof -
  let ?es = "[Call ''fs'' [''a''] 2, Call ''fs'' [''b''] 3, Tick, Call ''fs'' [''a''] 4]"
  let ?fs = "[Return, Call ''fs'' [''a''] 5, Return, Return, Return]"
  let ?e = "Some (JErr PlainError ''boom'' False)"
  let ?s1 = "snd (safe_step False (Call ''fs'' [''a''] 1) safe_init)"
  let ?s2 = "snd (safe_run False ?es ?s1)"
  let ?s3 = "snd (safe_step False (Done 0 ?e JUndefined) ?s2)"
  have h1: "orderly False [] safe_init ([] @ Call ''fs'' [''a''] 1 # ?es)"
    by (simp add: safe_eval)
  have h2: "safe_init = snd (safe_run False [] safe_init)" by simp
  have h3: "valid_version ''fs''" by (simp add: valid_version_def)
  have h4: "''fs:a'' = join '':'' (''fs'' # [''a''])" by simp
  have h5: "\<not> truthy (cache safe_init ''fs:a'')" by (simp add: safe_init_def)
  have h6: "queue safe_init ''fs:a'' = None" by (simp add: safe_init_def)
  have h7: "nextop safe_init \<notin> set (dones ?es)" by simp
  have n0: "nextop safe_init = 0" by (simp add: safe_init_def)
  have h10: "?s3 = snd (safe_step False (Done (nextop safe_init) ?e JUndefined) ?s2)"
    by (simp add: n0)
  have h11: "during (length (running ?s2)) False ?s3 ?fs"
    by (simp add: safe_eval)
  from safe_coalesces_in_flight[OF h1 h2 h3 h4 h5 h6 h7 refl refl h10 h11 refl refl]
  show ?thesis by (simp add: n0 safe_eval pushes_def)
qed


text \<open>
  Claim C2, as the code has it. The test is \<^verbatim>\<open>version.length === 40 || version == 'fs'\<close>: a
  first argument whose length is not 40 and that is not \<^verbatim>\<open>'fs'\<close> is refused. The callback is
  called with \<^verbatim>\<open>Error('Invalid version ' + version)\<close> within the call itself, not through
  \<^verbatim>\<open>process.nextTick\<close>; the wrapped function is not applied and the state of the decorator (the
  cache, the waiter arrays, the pending ticks and timers) is left as it was.
\<close>

theorem invalid_version_rejected:
  assumes "\<not> (length version = 40 \<or> version = ''fs'')"
  shows "safe_step t (Call version rest callback) s =
     ([Called callback (Some (JErr PlainError (''Invalid version '' @ version) False)) JUndefined], s)"
  using assms by (simp add: safe_call_def)

theorem invalid_version_rejected_witness:
  "safe_step False (Call ''0123456789'' [''README''] 7) safe_init =
     ([Called 7 (Some (JErr PlainError ''Invalid version 0123456789'' False)) JUndefined], safe_init)"
  using invalid_version_rejected[of "''0123456789''" False "[''README'']" 7 safe_init] by simp

text \<open>
  Claim C2 as stated fails twice. Forty letters \<^verbatim>\<open>Z\<close> are neither a lowercase hexadecimal hash
  nor \<^verbatim>\<open>'fs'\<close>, yet the call passes the test and applies the wrapped function. And a version
  tag of ten characters is refused within the call: the callback has been called when the call
  returns, and nothing waits for the next tick.
\<close>

theorem invalid_version_counterexample:
  "\<not> is_hex_hash ''ZZZZZZZZZZZZZZZZZZZZZZZZZZZZZZZZZZZZZZZZ'' \<and> ''ZZZZZZZZZZZZZZZZZZZZZZZZZZZZZZZZZZZZZZZZ'' \<noteq> ''fs''
   \<and> fst (safe_step False (Call ''ZZZZZZZZZZZZZZZZZZZZZZZZZZZZZZZZZZZZZZZZ'' [] 7) safe_init)
       = [Started 0 [''ZZZZZZZZZZZZZZZZZZZZZZZZZZZZZZZZZZZZZZZZ'']]
   \<and> fst (safe_step False (Call ''0123456789'' [] 7) safe_init)
       = [Called 7 (Some (JErr PlainError ''Invalid version 0123456789'' False)) JUndefined]
   \<and> ticks (snd (safe_step False (Call ''0123456789'' [] 7) safe_init)) = []"
  by (simp add: is_hex_hash_def safe_eval list_all_iff)



text \<open>
  Claim C9, as the code has it. In any orderly history, when an operation in flight for key
  \<open>k\<close> completes with an error and a falsy value, no value is stored and no timer is set. The
  loop of the completion closure begins; as long as the waiters that it calls return, it calls
  the waiters of the key in their order with the error, those that were queued and those whose
  calls arrive while the loop runs: such a call is answered with the same error and does not
  apply the wrapped function. The return of the last waiter ends the loop; key \<open>k\<close> then has no
  cached value and no waiter array, and the next call for \<open>k\<close> applies the wrapped function
  again.
\<close>

theorem failed_resolution_not_cached:
  assumes "orderly t [] safe_init (es0 @ [Done n (Some e) v])"
    and "s = snd (safe_run t es0 safe_init)"
    and "ops s n = Some (k, version)"
    and "\<not> truthy v"
    and "s1 = snd (safe_step t (Done n (Some e) v) s)"
    and "during (length (running s)) t s1 fs"
    and "s2 = snd (safe_run t fs s1)"
    and "W = arrays s n @ concat (map (waiting k) fs)"
    and "valid_version version'" and "join '':'' (version' # rest') = k"
  shows "cache s1 = cache s \<and> timers s1 = timers s \<and> cache s2 = cache s \<and> timers s2 = timers s
     \<and> \<not> truthy (cache s2 k)
     \<and> fst (safe_step t (Done n (Some e) v) s) @ returned t s1 fs
         = map (\<lambda>cb. Called cb (Some e) v) (take (Suc (returns fs)) W)
     \<and> starts k (fst (safe_run t fs s1)) = []
     \<and> (returns fs < length W \<longrightarrow>
          safe_step t (Call version' rest' cb) s2
            = ([], s2\<lparr>arrays := (arrays s2)(n := arrays s2 n @ [cb])\<rparr>))
     \<and> (\<not> returns fs < length W \<longrightarrow>
          returns fs = length W \<and> running s2 = running s \<and> queue s2 k = None
          \<and> fst (safe_step t (Call version' rest' cb) s2) = [Started (nextop s2) (version' # rest')])"
proof -
  note pr = safe_done_frame[OF assms(3), of t "Some e" v]
  from assms(1,2) have o0: "orderly t [] safe_init es0" and nD: "n \<notin> set (dones es0)"
    by (simp_all add: orderly_append)
  have inv: "safe_inv (set (dones es0)) s"
    using safe_inv_reach[OF o0] assms(2) by simp
  have fl: "in_flight k n s" by (rule in_flight_of_inv[OF inv assms(3) nD])
  have w: "arrays s n @ pushes k v fs = W" using assms(4,8) by (simp add: pushes_def)
  have du: "during (length (running s)) t (snd (safe_done t n (Some e) v s)) fs"
    using assms(5,6) by simp
  note ph = done_phase[OF fl du, unfolded w]
  have c1: "cache s1 = cache s" "timers s1 = timers s"
    using assms(4,5) by (simp_all add: pr)
  have c2: "cache s2 = cache s" "timers s2 = timers s"
    using ph(3,4) c1 assms(5,7) by simp_all
  have c3: "\<not> truthy (cache s2 k)" using in_flightD(4)[OF fl] c2 by simp
  have c4: "fst (safe_step t (Done n (Some e) v) s) @ returned t s1 fs
         = map (\<lambda>cb. Called cb (Some e) v) (take (Suc (returns fs)) W)"
    using ph(1) assms(5) by simp
  have c5: "starts k (fst (safe_run t fs s1)) = []" using ph(2) assms(5) by simp
  have c6: "safe_step t (Call version' rest' cb) s2
            = ([], s2\<lparr>arrays := (arrays s2)(n := arrays s2 n @ [cb])\<rparr>)"
    if "returns fs < length W"
  proof -
    from loopingD(2)[OF ph(6)[OF that]] have "queue s2 k = Some n" using assms(5,7) by simp
    then show ?thesis using c3 assms(9,10) by (simp add: safe_call_queued)
  qed
  have c7: "returns fs = length W \<and> running s2 = running s \<and> queue s2 k = None
          \<and> fst (safe_step t (Call version' rest' cb) s2) = [Started (nextop s2) (version' # rest')]"
    if "\<not> returns fs < length W"
  proof -
    from ph(8,9,10)[OF that] have a: "returns fs = length W" "running s2 = running s" "queue s2 k = None"
      using assms(5,7) by simp_all
    have "fst (safe_step t (Call version' rest' cb) s2) = [Started (nextop s2) (version' # rest')]"
      using a(3) c3 assms(9,10) by (simp add: safe_call_start)
    with a show ?thesis by simp
  qed
  show ?thesis using c1 c2 c3 c4 c5 c6 c7 by blast
qed

theorem failed_resolution_not_cached_witness:
  "fst (safe_run False
          [Call ''fs'' [''a''] 1, Call ''fs'' [''a''] 2,
           Done 0 (Some (JErr PlainError ''boom'' False)) JUndefined, Return, Return,
           Call ''fs'' [''a''] 3] safe_init)
     = [Started 0 [''fs'', ''a''],
        Called 1 (Some (JErr PlainError ''boom'' False)) JUndefined,
        Called 2 (Some (JErr PlainError ''boom'' False)) JUndefined,
        Started 1 [''fs'', ''a'']]"
proof -
  let ?es0 = "[Call ''fs'' [''a''] 1, Call ''fs'' [''a''] 2]"
  let ?e = "JErr PlainError ''boom'' False"
  let ?s = "snd (safe_run False ?es0 safe_init)"
  let ?s1 = "snd (safe_step False (Done 0 (Some ?e) JUndefined) ?s)"
  have h1: "orderly False [] safe_init (?es0 @ [Done 0 (Some ?e) JUndefined])"
    by (simp add: safe_eval)
  have h3: "ops ?s 0 = Some (''fs:a'', ''fs'')"
    by (simp add: safe_eval)
  have h4: "\<not> truthy JUndefined" by simp
  have h6: "during (length (running ?s)) False ?s1 [Return, Return]"
    by (simp add: safe_eval)
  have h9: "valid_version ''fs''" by (simp add: valid_version_def)
  have h10: "join '':'' (''fs'' # [''a'']) = ''fs:a''" by simp
  from failed_resolution_not_cached[OF h1 refl h3 h4 refl h6 refl refl h9 h10, of 3]
  show ?thesis by (simp add: safe_eval)
qed

text \<open>
  Claim C9 as stated fails on the code. A waiter that asks again for the key when it receives
  the error makes the next call for the key while the loop of the completion closure runs:
  \<^verbatim>\<open>queue[key]\<close> is still the array that the loop works on, the callback is pushed onto it, the
  wrapped function is not applied, and the loop calls the new callback with the same error. And
  when a waiter throws the error it receives, line 123 is not reached: \<^verbatim>\<open>queue[key]\<close> stays set
  and the next call for the key is queued, not started.
\<close>

theorem failed_resolution_counterexample:
  "fst (safe_run False
          [Call ''fs'' [''a''] 1, Done 0 (Some (JErr PlainError ''boom'' False)) JUndefined,
           Call ''fs'' [''a''] 2, Return, Return] safe_init)
     = [Started 0 [''fs'', ''a''],
        Called 1 (Some (JErr PlainError ''boom'' False)) JUndefined,
        Called 2 (Some (JErr PlainError ''boom'' False)) JUndefined]
   \<and> fst (safe_run False
          [Call ''fs'' [''a''] 1, Done 0 (Some (JErr PlainError ''boom'' False)) JUndefined,
           Throw (JErr PlainError ''boom'' False), Call ''fs'' [''a''] 2] safe_init)
     = [Started 0 [''fs'', ''a''],
        Called 1 (Some (JErr PlainError ''boom'' False)) JUndefined,
        Raised (JErr PlainError ''boom'' False)]
   \<and> queue (snd (safe_run False
          [Call ''fs'' [''a''] 1, Done 0 (Some (JErr PlainError ''boom'' False)) JUndefined,
           Throw (JErr PlainError ''boom'' False), Call ''fs'' [''a''] 2] safe_init)) ''fs:a'' = Some 0"
  by (simp add: safe_eval)

section \<open>Properties of the regular expressions\<close>












text \<open>Evaluation of the matcher and of the parser on concrete strings.\<close>

lemmas rx_eval = RegExp_def pnormal_def pclass_def quantify_def push_def close_alt_def digit_def
  rx_exec_def rx_test_def group_def is_lt_def in_ranges_def plus_def lits_def rx_remove_first_def

lemma rep_numeral: "rep (numeral n) r = Seq r (rep (pred_numeral n) r)"
  by (simp add: numeral_eq_Suc)

text \<open>The parser reads the pattern text of line 36 as the expression \<open>gitENOENT\<close> written out above.\<close>

lemma gitENOENT_source: "RegExp (''fatal: (Path '' @ [CHR 0x27] @ ''([^'' @ [CHR 0x27] @ '']+)'' @ [CHR 0x27] @ '' does not exist in '' @ [CHR 0x27] @ ''([0-9a-f]{40})'' @ [CHR 0x27]
   @ ''|ambiguous argument '' @ [CHR 0x27] @ ''([^'' @ [CHR 0x27] @ '']+)'' @ [CHR 0x27] @ '': unknown revision or path not in the working tree.)'') = Compiled gitENOENT"
  by (simp add: rx_eval gitENOENT_def hexd'_def not_quote_def rep_numeral)

section \<open>Properties of the subprocess and of the accessors\<close>


lemma readDir_not_tree_throws:
  "\<not> rx_test False tree_header (to_string text) \<Longrightarrow>
     readDir_cb None text = Throws (JErr ReferenceError ''combined is not defined'' False)"
  by (simp add: readDir_cb_def)

lemma readDir_listing_example:
  "readDir_cb None (JStr (''tree 0123:dir'' @ [CHR 0x0A, CHR 0x0A] @ ''a.txt'' @ [CHR 0x0A] @ ''sub/'' @ [CHR 0x0A]))
     = Calls None (JObj [(''files'', JArr [JStr ''a.txt'']), (''dirs'', JArr [JStr ''sub''])])"
  by (simp add: readDir_cb_def rx_eval tree_header_def ends_slash_def trim_def is_space_def)

lemma safe_accepts_valid:
  assumes "valid_version version"
  shows "Called callback (Some e) v \<notin> set (fst (safe_call version rest callback s))"
  using assms
  by (cases "queue s (join '':'' (version # rest))") (simp_all add: safe_call_def valid_version_def Let_def)

text \<open>
  Claim C4 fails on the code. A historical \<^verbatim>\<open>readDir\<close> of a path that names a file asks the
  decorated \<^verbatim>\<open>readFile\<close> for the path, and \<^verbatim>\<open>git show\<close> answers with the content of the file,
  here \<^verbatim>\<open>hello\<close> and a line feed. The content does not begin with a \<^verbatim>\<open>tree\<close> header, and the
  callback of \<^verbatim>\<open>readDir\<close> throws a \<^verbatim>\<open>ReferenceError\<close> at the undeclared name \<^verbatim>\<open>combined\<close>: the
  callback of the caller is not called, and no error that reports "not a directory" is made.
\<close>

theorem readDir_blob_throws:
  "readDir_op ''0123456789abcdef0123456789abcdef01234567'' ''README.md''
      = ReadFile ''0123456789abcdef0123456789abcdef01234567'' ''README.md'' ''utf-8''
   \<and> readDir_cb None (JStr (''hello'' @ [CHR 0x0A]))
      = Throws (JErr ReferenceError ''combined is not defined'' False)"
  by (simp add: readDir_op_def readDir_cb_def rx_eval tree_header_def)

text \<open>
  Claim C1 as stated fails on the code, in two ways. The loop of the completion closure has no
  \<^verbatim>\<open>try\<close>: when the first waiter throws, the closure is left, the second waiter stays in the
  array and is not called, and \<^verbatim>\<open>queue[key]\<close> stays set. In this file the callback that
  \<^verbatim>\<open>readDir\<close> gives to the decorated \<^verbatim>\<open>readFile\<close> is such a waiter: on the content of a file it
  throws a \<^verbatim>\<open>ReferenceError\<close> (line 401). And nothing keeps a wrapped function from calling its
  completion closure twice, as the \<^verbatim>\<open>readDir\<close> of the working tree does when \<^verbatim>\<open>fs.stat\<close>
  fails for two entries (line 443): the second run of the closure of operation 0 sets
  \<^verbatim>\<open>queue[key] = false\<close> while operation 1 is in flight for the key, and the next caller starts
  operation 2 beside it.
\<close>

theorem safe_coalescing_counterexample:
  "fst (safe_run False
     [Call ''0123456789abcdef0123456789abcdef01234567'' [''README.md'', ''utf-8''] 1,
      Call ''0123456789abcdef0123456789abcdef01234567'' [''README.md'', ''utf-8''] 2,
      Done 0 None (JStr (''hello'' @ [CHR 0x0A])),
      Throw (JErr ReferenceError ''combined is not defined'' False)] safe_init)
    = [Started 0 [''0123456789abcdef0123456789abcdef01234567'', ''README.md'', ''utf-8''],
       Called 1 None (JStr (''hello'' @ [CHR 0x0A])),
       Raised (JErr ReferenceError ''combined is not defined'' False)]
   \<and> running (snd (safe_run False
     [Call ''0123456789abcdef0123456789abcdef01234567'' [''README.md'', ''utf-8''] 1,
      Call ''0123456789abcdef0123456789abcdef01234567'' [''README.md'', ''utf-8''] 2,
      Done 0 None (JStr (''hello'' @ [CHR 0x0A])),
      Throw (JErr ReferenceError ''combined is not defined'' False)] safe_init)) = []
   \<and> arrays (snd (safe_run False
     [Call ''0123456789abcdef0123456789abcdef01234567'' [''README.md'', ''utf-8''] 1,
      Call ''0123456789abcdef0123456789abcdef01234567'' [''README.md'', ''utf-8''] 2,
      Done 0 None (JStr (''hello'' @ [CHR 0x0A])),
      Throw (JErr ReferenceError ''combined is not defined'' False)] safe_init)) 0 = [2]
   \<and> fst (safe_run False
     [Call ''fs'' [''dir''] 1, Done 0 (Some (JErr FsError ''ENOENT a'' True)) JUndefined, Return,
      Call ''fs'' [''dir''] 2, Done 0 (Some (JErr FsError ''ENOENT b'' True)) JUndefined,
      Call ''fs'' [''dir''] 3] safe_init)
    = [Started 0 [''fs'', ''dir''], Called 1 (Some (JErr FsError ''ENOENT a'' True)) JUndefined,
       Started 1 [''fs'', ''dir''], Started 2 [''fs'', ''dir'']]
   \<and> readDir_cb None (JStr (''hello'' @ [CHR 0x0A]))
       = Throws (JErr ReferenceError ''combined is not defined'' False)"
  by (simp add: safe_eval readDir_cb_def rx_eval tree_header_def)

lemmas log_eval = parse_log_def log_entry_def commit_line_def log_body_def header_line_def
  header_parts_def white_def hexd_def rx_match_all_def to_lower_def trim_def is_space_def

lemma log_headers_error:
  "log_headers lines data = Inl e \<Longrightarrow> \<exists>m. e = JErr TypeError m False"
  by (induction lines arbitrary: data) (auto split: option.splits)

lemma log_entry_error:
  "log_entry entry = Inl e \<Longrightarrow> \<exists>m. e = JErr TypeError m False"
  unfolding log_entry_def
  by (auto split: option.splits list.splits sum.splits dest: log_headers_error)

lemma log_entries_error:
  "log_entries es log = Inl e \<Longrightarrow> \<exists>m. e = JErr TypeError m False"
  by (induction es arbitrary: log) (auto split: sum.splits dest: log_entry_error)

lemma parse_log_cases:
  "(\<exists>log. parse_log text = Calls None (JObj log)) \<or> (\<exists>m. parse_log text = Throws (JErr TypeError m False))"
  unfolding parse_log_def
  by (auto split: sum.splits dest: log_entries_error)

lemma log_example:
  "parse_log (''commit 0123456789abcdef0123456789abcdef01234567'' @ [CHR 0x0A] @ ''Author: A U Thor <a@b.c>''
      @ [CHR 0x0A] @ ''Date:   Mon Jan 1'' @ [CHR 0x0A, CHR 0x0A] @ ''    first'' @ [CHR 0x0A])
   = Calls None (JObj [(''0123456789abcdef0123456789abcdef01234567'',
        JObj [(''message'', JStr ''first''), (''author'', JStr ''A U Thor <a@b.c>''),
              (''date'', JStr ''Mon Jan 1'')])])"
  by (simp add: log_eval rx_eval rep_numeral)

text \<open>
  Claim C5, as the code has it. Nothing in \<^verbatim>\<open>logFile\<close> looks at the kind of version. The
  decorator accepts \<^verbatim>\<open>'fs'\<close> (it calls the callback with no error of its own), and the wrapped
  function runs \<^verbatim>\<open>git log -z --summary fs -- path\<close>, with \<^verbatim>\<open>fs\<close> where a revision is expected.
  The result is what the subprocess says. On a nonzero exit status it is the error that
  \<^verbatim>\<open>gitExec\<close> builds from the command line and the error stream. On status zero (or an end by
  a signal) it is the empty array when there is no output, and otherwise what lines 310 to 322
  make of the output: the log object, or a \<^verbatim>\<open>TypeError\<close> thrown at a text that is not a log. So
  the callback receives an error only when the exit status is not zero.
\<close>

theorem logFile_live_runs_git:
  "(\<forall>e v. Called cb (Some e) v \<notin> set (fst (safe_step t (Call ''fs'' [path] cb) s)))
   \<and> logFile_op ''fs'' path
       = GitExec [''log'', ''-z'', ''--summary'', ''fs'', ''--'', path] (EncString ''utf8'')
   \<and> (c \<noteq> 0 \<longrightarrow>
        logFile_close g ''fs'' path (Some c) out err
          = Some (Calls (Some (JErr PlainError
               (''git '' @ join '' '' (g @ [''log'', ''-z'', ''--summary'', ''fs'', ''--'', path])
                  @ [CHR 0x0A] @ concat err)
               (rx_test False gitENOENT
                 (''git '' @ join '' '' (g @ [''log'', ''-z'', ''--summary'', ''fs'', ''--'', path])
                    @ [CHR 0x0A] @ concat err)))) JUndefined))
   \<and> (x = Some 0 \<or> x = None \<longrightarrow>
        logFile_close g ''fs'' path x out err
          = Some (if concat out = [] then Calls None (JArr []) else parse_log (concat out)))
   \<and> ((\<exists>log. parse_log (concat out) = Calls None (JObj log))
        \<or> (\<exists>m. parse_log (concat out) = Throws (JErr TypeError m False)))
   \<and> (logFile_close g ''fs'' path x out err = Some (Calls (Some e') v') \<longrightarrow> (\<exists>c'. x = Some c' \<and> c' \<noteq> 0))"
proof -
  have v: "valid_version ''fs''" by (simp add: valid_version_def)
  have a: "\<forall>e v. Called cb (Some e) v \<notin> set (fst (safe_step t (Call ''fs'' [path] cb) s))"
    using safe_accepts_valid[OF v] by simp
  have b: "logFile_close g ''fs'' path (Some c) out err
          = Some (Calls (Some (JErr PlainError
               (''git '' @ join '' '' (g @ [''log'', ''-z'', ''--summary'', ''fs'', ''--'', path])
                  @ [CHR 0x0A] @ concat err)
               (rx_test False gitENOENT
                 (''git '' @ join '' '' (g @ [''log'', ''-z'', ''--summary'', ''fs'', ''--'', path])
                    @ [CHR 0x0A] @ concat err)))) JUndefined)" if "c \<noteq> 0"
    using that
    by (simp add: logFile_close_def logFile_op_def gitExec_close_def call_callback_def Let_def
        logFile_cb_def)
  have d: "logFile_close g ''fs'' path x out err
          = Some (if concat out = [] then Calls None (JArr []) else parse_log (concat out))"
    if "x = Some 0 \<or> x = None"
    using that
    by (auto simp: logFile_close_def logFile_op_def gitExec_close_def call_callback_def logFile_cb_def)
  note p = parse_log_cases[of "concat out"]
  have f: "\<exists>c'. x = Some c' \<and> c' \<noteq> 0" if h: "logFile_close g ''fs'' path x out err = Some (Calls (Some e') v')"
  proof (rule ccontr)
    assume "\<not> (\<exists>c'. x = Some c' \<and> c' \<noteq> 0)"
    then have "x = Some 0 \<or> x = None" by (cases x) auto
    from d[OF this] h p show False by (auto split: if_splits)
  qed
  show ?thesis using a b d p f by (simp add: logFile_op_def)
qed

theorem logFile_live_runs_git_witness:
  "logFile_close [''--git-dir=/r/.git''] ''fs'' ''README'' (Some 128) []
       [''fatal: bad revision '' @ [CHR 0x27] @ ''fs'' @ [CHR 0x27, CHR 0x0A]]
     = Some (Calls (Some (JErr PlainError
         (''git --git-dir=/r/.git log -z --summary fs -- README'' @ [CHR 0x0A]
            @ ''fatal: bad revision '' @ [CHR 0x27] @ ''fs'' @ [CHR 0x27, CHR 0x0A]) False)) JUndefined)
   \<and> logFile_close [''--git-dir=/r/.git''] ''fs'' ''README'' (Some 0)
       [''commit 0123456789abcdef0123456789abcdef01234567'' @ [CHR 0x0A] @ ''Author: A U Thor <a@b.c>''
          @ [CHR 0x0A] @ ''Date:   Mon Jan 1'' @ [CHR 0x0A, CHR 0x0A] @ ''    first'' @ [CHR 0x0A]] []
     = Some (Calls None (JObj [(''0123456789abcdef0123456789abcdef01234567'',
        JObj [(''message'', JStr ''first''), (''author'', JStr ''A U Thor <a@b.c>''),
              (''date'', JStr ''Mon Jan 1'')])]))"
proof -
  let ?log = "''commit 0123456789abcdef0123456789abcdef01234567'' @ [CHR 0x0A] @ ''Author: A U Thor <a@b.c>''
          @ [CHR 0x0A] @ ''Date:   Mon Jan 1'' @ [CHR 0x0A, CHR 0x0A] @ ''    first'' @ [CHR 0x0A]"
  have h: "(128::nat) \<noteq> 0" by simp
  have n: "\<not> rx_test False gitENOENT (''git --git-dir=/r/.git log -z --summary fs -- README'' @ [CHR 0x0A]
            @ ''fatal: bad revision '' @ [CHR 0x27] @ ''fs'' @ [CHR 0x27, CHR 0x0A])"
    by (simp add: rx_eval gitENOENT_def hexd'_def not_quote_def rep_numeral)
  from logFile_live_runs_git[of 1 False "''README''" safe_init 128
      "[''--git-dir=/r/.git'']" "[]" "[''fatal: bad revision '' @ [CHR 0x27] @ ''fs'' @ [CHR 0x27, CHR 0x0A]]"] h n
  have "logFile_close [''--git-dir=/r/.git''] ''fs'' ''README'' (Some 128) []
       [''fatal: bad revision '' @ [CHR 0x27] @ ''fs'' @ [CHR 0x27, CHR 0x0A]]
     = Some (Calls (Some (JErr PlainError
         (''git --git-dir=/r/.git log -z --summary fs -- README'' @ [CHR 0x0A]
            @ ''fatal: bad revision '' @ [CHR 0x27] @ ''fs'' @ [CHR 0x27, CHR 0x0A]) False)) JUndefined)"
    by simp
  moreover have c: "concat [?log] \<noteq> []" by simp
  from logFile_live_runs_git[of 1 False "''README''" safe_init 128
      "[''--git-dir=/r/.git'']" "[?log]" "[]" "Some 0"]
  have "logFile_close [''--git-dir=/r/.git''] ''fs'' ''README'' (Some 0) [?log] []
      = Some (parse_log (concat [?log]))"
    by (simp only: c if_False) simp
  then have "logFile_close [''--git-dir=/r/.git''] ''fs'' ''README'' (Some 0) [?log] []
     = Some (Calls None (JObj [(''0123456789abcdef0123456789abcdef01234567'',
        JObj [(''message'', JStr ''first''), (''author'', JStr ''A U Thor <a@b.c>''),
              (''date'', JStr ''Mon Jan 1'')])]))"
    using log_example by simp
  ultimately show ?thesis by simp
qed

text \<open>
  Claim C5 as stated fails: a log query for \<^verbatim>\<open>'fs'\<close> is started like any other, and when the
  subprocess exits with status zero and no output (a ref named \<^verbatim>\<open>fs\<close> exists and no commit of
  it touches the path), the caller receives the empty array and no error.
\<close>

theorem logFile_live_counterexample:
  "fst (safe_step False (Call ''fs'' [''README''] 1) safe_init) = [Started 0 [''fs'', ''README'']]
   \<and> logFile_op ''fs'' ''README''
       = GitExec [''log'', ''-z'', ''--summary'', ''fs'', ''--'', ''README''] (EncString ''utf8'')
   \<and> logFile_close [''--git-dir=/r/.git''] ''fs'' ''README'' (Some 0) [] []
       = Some (Calls None (JArr []))"
  by (simp add: safe_call_def safe_init_def Let_def logFile_close_def logFile_op_def
      gitExec_close_def call_callback_def logFile_cb_def)




section \<open>Properties of \<^verbatim>\<open>getHeadSha\<close>\<close>


lemmas head_eval = head_init_def head_call_def head_exists_def head_gc_close_def head_packed_def
  head_head_def head_loose_def head_elapse_def answer_def getHEAD_def checkDone_def finish_def
  groupCallback_def truthy_str_def first_group_def sha_of_master_def sha_of_packed_def
  gitExec_close_def call_callback_def Let_def CACHE_LIFE_def

lemma gitExec_no_callback:
  "\<exists>e. gitExec_close J commands encoding False exitCode stdout stderr = Throws e"
  by (cases "Tools_join J stdout encoding") (auto simp: gitExec_close_def call_callback_def Let_def)

lemma getHeadSha_gc_uncaught:
  assumes "dir \<noteq> []"
  shows "\<exists>e. fst (head_run J [HCall cb, HExists 0 False, HGcClose 0 c out err] (head_init dir cmds))
           = [HAskExists, HSpawn (cmds @ [''gc'']), HUncaught e]"
proof -
  obtain e where e: "gitExec_close J (cmds @ [''gc'']) EncFunction False c out err = Throws e"
    using gitExec_no_callback by blast
  show ?thesis using assms
    by (simp add: head_init_def head_call_def head_exists_def answer_def head_gc_close_def e)
qed

text \<open>A resolution on a repository with a packed and no loose ref, for two callers.\<close>

lemma head_ok_example:
  "hcalls (fst (head_run (Inr (JStr [])) [HCall 1, HCall 2, HExists 0 True,
         HPacked 0 (Inr (''# pack-refs'' @ [CHR 0x0A] @ ''0123456789abcdef0123456789abcdef01234567 refs/heads/master'' @ [CHR 0x0A])),
         HHead 0 (Inr (''ref: refs/heads/master'' @ [CHR 0x0A])), HLoose 0 (Inl (JErr FsError ''ENOENT'' True))]
         (head_init ''/r/.git'' [''--git-dir=/r/.git''])))
     = [HCalled 1 None (JStr ''0123456789abcdef0123456789abcdef01234567''),
        HCalled 2 None (JStr ''0123456789abcdef0123456789abcdef01234567'')]"
  by (simp add: head_eval rx_eval head_ref_def hexd_def rep_numeral)

lemma checkDone_stuck:
  "\<not> truthy_str (packedRefs (hvars s n)) \<Longrightarrow> checkDone n s = ([], s)"
  by (simp add: checkDone_def Let_def)

lemma list_all_remove1: "list_all P xs \<Longrightarrow> list_all P (remove1 x xs)"
  by (induction xs) auto

lemma stuck_member: "stuck s \<Longrightarrow> rq \<in> set (pending s) \<Longrightarrow> \<not> truthy_str (packedRefs (hvars s (req_call rq)))"
  by (simp add: stuck_def list_all_iff)

lemma wf_remove:
  "waiting_forever s \<Longrightarrow> waiting_forever (s\<lparr>pending := remove1 rq (pending s)\<rparr>)"
  by (simp add: waiting_forever_def stuck_def list_all_remove1)

lemma wf_call:
  "waiting_forever s \<Longrightarrow> waiting_forever (snd (head_call cb s)) \<and> hcalls (fst (head_call cb s)) = []"
  by (cases "shaQueue s") (auto simp: waiting_forever_def head_call_def stuck_def)

lemma wf_exists:
  assumes "waiting_forever s" and "\<not> truthy_str (packedRefs (hvars s n))"
  shows "waiting_forever (snd (head_exists n b s)) \<and> hcalls (fst (head_exists n b s)) = []"
  using assms by (simp add: waiting_forever_def head_exists_def getHEAD_def stuck_def)

lemma wf_gc:
  assumes "waiting_forever s"
  shows "waiting_forever (snd (head_gc_close J n c out err s)) \<and> hcalls (fst (head_gc_close J n c out err s)) = []"
proof -
  obtain e where "gitExec_close J (gitCommands s @ [''gc'']) EncFunction False c out err = Throws e"
    using gitExec_no_callback by blast
  then show ?thesis using assms by (simp add: head_gc_close_def)
qed

lemma wf_packed:
  assumes "waiting_forever s"
  shows "waiting_forever (snd (head_packed n (Inr []) s)) \<and> hcalls (fst (head_packed n (Inr []) s)) = []"
proof -
  let ?s' = "s\<lparr>hvars := (hvars s)(n := (hvars s n)\<lparr>packedRefs := Some []\<rparr>)\<rparr>"
  have f: "\<not> truthy_str (packedRefs (hvars ?s' n))" by (simp add: truthy_str_def)
  have "stuck ?s'" using assms
    by (simp add: waiting_forever_def stuck_def list_all_iff truthy_str_def)
  then have "waiting_forever ?s'" using assms by (simp add: waiting_forever_def)
  then show ?thesis by (simp add: head_packed_def checkDone_stuck[OF f])
qed

lemma wf_head:
  assumes "waiting_forever s" and "\<not> truthy_str (packedRefs (hvars s n))" and "rx_test False head_ref t"
  shows "waiting_forever (snd (head_head n (Inr t) s)) \<and> hcalls (fst (head_head n (Inr t) s)) = []"
proof -
  from assms(3) obtain m where m: "rx_exec False head_ref t = Some m"
    by (auto simp: rx_test_def)
  define h where "h = (case group 1 m of None \<Rightarrow> [] | Some x \<Rightarrow> x)"
  let ?s' = "s\<lparr>hvars := (hvars s)(n := (hvars s n)\<lparr>head := Some h\<rparr>), pending := pending s @ [PLoose n]\<rparr>"
  have f: "\<not> truthy_str (packedRefs (hvars ?s' n))" using assms(2) by simp
  have "stuck ?s'" using assms(1,2)
    by (simp add: waiting_forever_def stuck_def list_all_iff)
  then have w: "waiting_forever ?s'" using assms(1) by (simp add: waiting_forever_def)
  have "head_head n (Inr t) s = (let (out, s2) = checkDone n ?s' in (HRead (RefFile h) # out, s2))"
    by (simp add: head_head_def m Let_def h_def)
  then have "head_head n (Inr t) s = ([HRead (RefFile h)], ?s')"
    by (simp only: checkDone_stuck[OF f] Let_def split_conv)
  then show ?thesis using w by simp
qed

lemma wf_loose:
  assumes "waiting_forever s" and "\<not> truthy_str (packedRefs (hvars s n))"
  shows "waiting_forever (snd (head_loose n r s)) \<and> hcalls (fst (head_loose n r s)) = []"
proof -
  let ?s' = "s\<lparr>hvars := (hvars s)(n := (hvars s n)
        \<lparr>master := (case r of Inl e \<Rightarrow> JNull | Inr result \<Rightarrow> if result = [] then JNull else JStr result)\<rparr>)\<rparr>"
  have f: "\<not> truthy_str (packedRefs (hvars ?s' n))" using assms(2) by simp
  have "stuck ?s'" using assms(1,2)
    by (simp add: waiting_forever_def stuck_def list_all_iff)
  then have w: "waiting_forever ?s'" using assms(1) by (simp add: waiting_forever_def)
  show ?thesis using w by (simp add: head_loose_def checkDone_stuck[OF f])
qed

lemma wf_elapse:
  "waiting_forever s \<Longrightarrow> waiting_forever (snd (head_elapse d s)) \<and> hcalls (fst (head_elapse d s)) = []"
  by (simp add: waiting_forever_def head_elapse_def stuck_def)

lemma wf_answer:
  assumes "waiting_forever s"
    and "\<And>s'. waiting_forever s' \<Longrightarrow> \<not> truthy_str (packedRefs (hvars s' (req_call rq)))
           \<Longrightarrow> waiting_forever (snd (f s')) \<and> hcalls (fst (f s')) = []"
  shows "waiting_forever (snd (answer rq f s)) \<and> hcalls (fst (answer rq f s)) = []"
proof (cases "rq \<in> set (pending s)")
  case True
  from assms(1) have "stuck s" by (simp add: waiting_forever_def)
  from stuck_member[OF this True]
  have "\<not> truthy_str (packedRefs (hvars (s\<lparr>pending := remove1 rq (pending s)\<rparr>) (req_call rq)))" by simp
  from assms(2)[OF wf_remove[OF assms(1)] this] True show ?thesis by (simp add: answer_def)
next
  case False
  then show ?thesis using assms(1) by (simp add: answer_def)
qed

lemma wf_step:
  assumes "waiting_forever s" and "empty_packed e"
  shows "waiting_forever (snd (head_step J e s)) \<and> hcalls (fst (head_step J e s)) = []"
proof (cases e)
  case (HCall cb)
  then show ?thesis using wf_call[OF assms(1)] by simp
next
  case (HExists n b)
  show ?thesis unfolding HExists head_step.simps
    by (rule wf_answer[OF assms(1)]) (simp add: wf_exists)
next
  case (HGcClose n c out err)
  show ?thesis unfolding HGcClose head_step.simps
    by (rule wf_answer[OF assms(1)]) (simp add: wf_gc)
next
  case (HPacked n r)
  with assms(2) have r: "r = Inr []" by simp
  show ?thesis unfolding HPacked head_step.simps r
    by (rule wf_answer[OF assms(1)]) (simp add: wf_packed)
next
  case (HHead n r)
  with assms(2) obtain t where r: "r = Inr t" and t: "rx_test False head_ref t"
    by (cases r) auto
  show ?thesis unfolding HHead head_step.simps r
    by (rule wf_answer[OF assms(1)]) (simp add: wf_head[OF _ _ t])
next
  case (HLoose n r)
  show ?thesis unfolding HLoose head_step.simps
    by (rule wf_answer[OF assms(1)]) (simp add: wf_loose)
next
  case (HElapse d)
  then show ?thesis using wf_elapse[OF assms(1)] by simp
qed

lemma hcalls_append: "hcalls (a @ b) = hcalls a @ hcalls b"
  by (induction a rule: hcalls.induct) simp_all

lemma wf_run:
  "waiting_forever s \<Longrightarrow> list_all empty_packed es \<Longrightarrow>
     waiting_forever (snd (head_run J es s)) \<and> hcalls (fst (head_run J es s)) = []"
proof (induction es arbitrary: s)
  case Nil
  then show ?case by simp
next
  case (Cons e es)
  from Cons.prems have e: "empty_packed e" and es: "list_all empty_packed es" by simp_all
  from wf_step[OF Cons.prems(1) e, of J]
  have a: "waiting_forever (snd (head_step J e s))" and b: "hcalls (fst (head_step J e s)) = []" by simp_all
  from Cons.IH[OF a es] b show ?case by (simp add: split_beta hcalls_append)
qed

text \<open>
  Claim C7 fails on the code. On a repository without \<^verbatim>\<open>packed-refs\<close> the call asks whether the
  file exists and, told that it does not, spawns \<^verbatim>\<open>git gc\<close>, once. When the subprocess closes,
  \<^verbatim>\<open>gitExec\<close> calls its third parameter, which the call of line 176 did not pass: the listener
  throws a \<^verbatim>\<open>TypeError\<close>, \<^verbatim>\<open>getHEAD\<close> does not run, no read of \<^verbatim>\<open>packed-refs\<close> is started, the
  caller's callback is not called and stays in the queue, and no request is outstanding that
  could change that. (With \<^verbatim>\<open>packed-refs\<close> present, no subprocess is spawned.)
\<close>

theorem getHeadSha_gc_never_returns:
  "fst (head_run (Inr (JStr [])) [HCall 1, HExists 0 False, HGcClose 0 (Some 0) [] []]
         (head_init ''/r/.git'' [''--git-dir=/r/.git'']))
     = [HAskExists, HSpawn [''--git-dir=/r/.git'', ''gc''],
        HUncaught (JErr TypeError ''callback is not a function'' False)]
   \<and> pending (snd (head_run (Inr (JStr [])) [HCall 1, HExists 0 False, HGcClose 0 (Some 0) [] []]
         (head_init ''/r/.git'' [''--git-dir=/r/.git'']))) = []
   \<and> shaQueue (snd (head_run (Inr (JStr [])) [HCall 1, HExists 0 False, HGcClose 0 (Some 0) [] []]
         (head_init ''/r/.git'' [''--git-dir=/r/.git'']))) = Some [1]"
  by (simp add: head_eval)

text \<open>
  Claim C10, as the code has it. Take a call of \<^verbatim>\<open>getHeadSha\<close> that finds nothing cached and no
  resolution in flight, on a repository whose \<^verbatim>\<open>packed-refs\<close> reads as the empty string and whose
  \<^verbatim>\<open>HEAD\<close> reads as a symbolic ref. Whatever happens next (the answers to its requests in any
  order, further calls, time passing), no callback of a caller is called, neither with a hash nor
  with an error, and the queue is never cleared: the guard of \<^verbatim>\<open>checkDone\<close> takes the empty
  text for a read that has not completed.
\<close>

theorem empty_packed_refs_never_completes:
  assumes "gitDir s \<noteq> []" and "shaQueue s = None" and "\<not> truthy (shaCache s)" and "pending s = []"
    and "list_all empty_packed es"
  shows "fst (head_step J (HCall cb) s) = [HAskExists]
     \<and> hcalls (fst (head_run J es (snd (head_step J (HCall cb) s)))) = []
     \<and> (\<exists>q. shaQueue (snd (head_run J es (snd (head_step J (HCall cb) s)))) = Some q)"
proof -
  have w: "waiting_forever (snd (head_step J (HCall cb) s))"
    using assms(1-4) by (simp add: head_call_def waiting_forever_def stuck_def truthy_str_def)
  from wf_run[OF w assms(5), of J] assms(1-3) show ?thesis
    by (auto simp: head_call_def waiting_forever_def)
qed

theorem empty_packed_refs_never_completes_witness:
  "hcalls (fst (head_run (Inr (JStr [])) [HCall 2, HExists 0 True, HPacked 0 (Inr []),
         HHead 0 (Inr (''ref: refs/heads/master'' @ [CHR 0x0A])),
         HLoose 0 (Inr (''0123456789abcdef0123456789abcdef01234567'' @ [CHR 0x0A])), HCall 3, HElapse 1000]
       (snd (head_step (Inr (JStr [])) (HCall 1) (head_init ''/r/.git'' [''--git-dir=/r/.git'']))))) = []
   \<and> shaQueue (snd (head_run (Inr (JStr [])) [HCall 2, HExists 0 True, HPacked 0 (Inr []),
         HHead 0 (Inr (''ref: refs/heads/master'' @ [CHR 0x0A])),
         HLoose 0 (Inr (''0123456789abcdef0123456789abcdef01234567'' @ [CHR 0x0A])), HCall 3, HElapse 1000]
       (snd (head_step (Inr (JStr [])) (HCall 1) (head_init ''/r/.git'' [''--git-dir=/r/.git'']))))) = Some [1, 2, 3]"
proof -
  let ?es = "[HCall 2, HExists 0 True, HPacked 0 (Inr []),
         HHead 0 (Inr (''ref: refs/heads/master'' @ [CHR 0x0A])),
         HLoose 0 (Inr (''0123456789abcdef0123456789abcdef01234567'' @ [CHR 0x0A])), HCall 3, HElapse 1000]"
  let ?s = "head_init ''/r/.git'' [''--git-dir=/r/.git'']"
  have h1: "gitDir ?s \<noteq> []" and h2: "shaQueue ?s = None" and h3: "\<not> truthy (shaCache ?s)"
    and h4: "pending ?s = []" by (simp_all add: head_init_def)
  have h5: "list_all empty_packed ?es" by (simp add: rx_eval head_ref_def)
  have q: "shaQueue (snd (head_run (Inr (JStr [])) ?es (snd (head_step (Inr (JStr [])) (HCall 1) ?s)))) = Some [1, 2, 3]"
    by (simp add: head_eval rx_eval head_ref_def)
  from empty_packed_refs_never_completes[OF h1 h2 h3 h4 h5, of "Inr (JStr [])" 1] q
  show ?thesis by simp
qed

text \<open>
  Claim C10 as stated fails where \<^verbatim>\<open>HEAD\<close> is not a symbolic ref: with an empty \<^verbatim>\<open>packed-refs\<close>
  and a detached \<^verbatim>\<open>HEAD\<close> (a hash and a line feed), \<^verbatim>\<open>match\<close> returns \<^verbatim>\<open>null\<close>, the
  \<^verbatim>\<open>TypeError\<close> is caught and the caller is called with it.
\<close>

theorem getHeadSha_empty_packed_counterexample:
  "hcalls (fst (head_run (Inr (JStr [])) [HCall 1, HExists 0 True, HPacked 0 (Inr []),
         HHead 0 (Inr (''0123456789abcdef0123456789abcdef01234567'' @ [CHR 0x0A]))]
         (head_init ''/r/.git'' [''--git-dir=/r/.git''])))
     = [HCalled 1 (Some (JErr TypeError ''Cannot read property 1 of null'' False)) JUndefined]"
  by (simp add: head_eval rx_eval head_ref_def)

section \<open>Properties of \<^verbatim>\<open>getBranchSha\<close>\<close>

lemmas branch_eval = branch_init_def branch_call_def branch_close_def branch_lines_def
  branch_elapse_def branch_return_def branch_throw_def bloop_def bloop_exit_def bgroup_def
  bcheckDone_def candidates_def ref_lookup_def proto_props_def
  gitExec_close_def call_callback_def Let_def CACHE_LIFE_def full_path_def remote_short_def
  name_char_def

lemma pnormal_plain: "plain_char c \<Longrightarrow> pnormal st c = Go Normal (push (Lit c) Atom st)"
  by (simp add: pnormal_def plain_char_def)

lemma parse_plain:
  "list_all plain_char w \<Longrightarrow> parse Normal st (w @ rest) = parse Normal (push_lits w st) rest"
  by (induction w arbitrary: st) (simp_all add: pnormal_plain)

lemma push_lits_cur:
  "push_lits w st = st\<lparr>cur := rev (map Lit w) @ cur st, quant := (if w = [] then quant st else Atom)\<rparr>"
  by (induction w arbitrary: st) (simp_all add: push_def)

lemma parse_ref_prefix:
  "parse Normal \<lparr>frames = [], alts = [], cur = [], quant = NoAtom, ngroups = 0\<rparr>
     (''^([a-f0-9]{40}) refs/'' @ rest)
   = parse Normal \<lparr>frames = [], alts = [],
       cur = rev ([Bol, Grp 1 (mk_seq [rep 40 hexd]), Lit CHR '' ''] @ lits ''refs/''),
       quant = Atom, ngroups = 1\<rparr> rest"
  by (simp add: rx_eval hexd_def rep_numeral)

lemma RegExp_plain_key:
  assumes "list_all plain_char key"
  shows "RegExp (''^([a-f0-9]{40}) refs/'' @ key @ ''$'') = Compiled (ref_rx (lits key))"
proof -
  let ?st = "\<lparr>frames = [], alts = [],
       cur = rev ([Bol, Grp 1 (mk_seq [rep 40 hexd]), Lit CHR '' ''] @ lits ''refs/''),
       quant = Atom, ngroups = 1\<rparr>"
  have "RegExp (''^([a-f0-9]{40}) refs/'' @ key @ ''$'') = parse Normal ?st (key @ ''$'')"
    unfolding RegExp_def by (rule parse_ref_prefix)
  also have "\<dots> = parse Normal (push_lits key ?st) ''$''"
    by (rule parse_plain[OF assms])
  also have "\<dots> = Compiled (ref_rx (lits key))"
    by (simp add: push_lits_cur pnormal_def push_def close_alt_def ref_rx_def lits_def)
  finally show ?thesis .
qed

lemma parse_remote_prefix:
  "parse Normal \<lparr>frames = [], alts = [], cur = [], quant = NoAtom, ngroups = 0\<rparr>
     (''^([a-f0-9]{40}) refs/remotes/(.+)/'' @ rest)
   = parse Normal \<lparr>frames = [], alts = [],
       cur = rev ([Bol, Grp 1 (mk_seq [rep 40 hexd]), Lit CHR '' ''] @ lits ''refs/''
                  @ lits ''remotes/'' @ [Grp 2 (mk_seq [plus Dot]), Lit CHR ''/'']),
       quant = Atom, ngroups = 2\<rparr> rest"
  by (simp add: rx_eval hexd_def rep_numeral numeral_2_eq_2)

lemma RegExp_remote_key:
  assumes "list_all plain_char b"
  shows "RegExp (''^([a-f0-9]{40}) refs/'' @ (''remotes/(.+)/'' @ b) @ ''$'')
       = Compiled (ref_rx (lits ''remotes/'' @ [Grp 2 (mk_seq [plus Dot]), Lit CHR ''/''] @ lits b))"
proof -
  let ?st = "\<lparr>frames = [], alts = [],
       cur = rev ([Bol, Grp 1 (mk_seq [rep 40 hexd]), Lit CHR '' ''] @ lits ''refs/''
                  @ lits ''remotes/'' @ [Grp 2 (mk_seq [plus Dot]), Lit CHR ''/'']),
       quant = Atom, ngroups = 2\<rparr>"
  have "RegExp (''^([a-f0-9]{40}) refs/'' @ (''remotes/(.+)/'' @ b) @ ''$'')
      = parse Normal \<lparr>frames = [], alts = [], cur = [], quant = NoAtom, ngroups = 0\<rparr>
          (''^([a-f0-9]{40}) refs/remotes/(.+)/'' @ (b @ ''$''))"
    unfolding RegExp_def by simp
  also have "\<dots> = parse Normal ?st (b @ ''$'')"
    by (rule parse_remote_prefix)
  also have "\<dots> = parse Normal (push_lits b ?st) ''$''"
    by (rule parse_plain[OF assms])
  also have "\<dots> = Compiled (ref_rx (lits ''remotes/'' @ [Grp 2 (mk_seq [plus Dot]), Lit CHR ''/''] @ lits b))"
    by (simp add: push_lits_cur pnormal_def push_def close_alt_def ref_rx_def lits_def)
  finally show ?thesis .
qed

lemma ref_lookup_plain:
  assumes "list_all plain_char key"
  shows "ref_lookup key lines =
     (case rx_exec True (ref_rx (lits key)) lines of
        None \<Rightarrow> Missing
      | Some m \<Rightarrow> Found (case group 1 m of None \<Rightarrow> JUndefined | Some h \<Rightarrow> JStr h))"
  unfolding ref_lookup_def RegExp_plain_key[OF assms] by simp

lemma ref_lookup_remote:
  assumes "list_all plain_char b"
  shows "ref_lookup (''remotes/(.+)/'' @ b) lines =
     (case rx_exec True (ref_rx (lits ''remotes/'' @ [Grp 2 (mk_seq [plus Dot]), Lit CHR ''/''] @ lits b)) lines of
        None \<Rightarrow> Missing
      | Some m \<Rightarrow> Found (case group 1 m of None \<Rightarrow> JUndefined | Some h \<Rightarrow> JStr h))"
  unfolding ref_lookup_def RegExp_remote_key[OF assms] by simp

lemma ref_lookup_cases:
  assumes "list_all plain_char b"
  shows "ref_lookup (''heads/'' @ b) lines = Missing \<or> (\<exists>sha. ref_lookup (''heads/'' @ b) lines = Found sha)"
    and "ref_lookup (''remotes/(.+)/'' @ b) lines = Missing
          \<or> (\<exists>sha. ref_lookup (''remotes/(.+)/'' @ b) lines = Found sha)"
    and "ref_lookup (''tags/'' @ b) lines = Missing \<or> (\<exists>sha. ref_lookup (''tags/'' @ b) lines = Found sha)"
proof -
  have h: "list_all plain_char (''heads/'' @ b)" "list_all plain_char (''tags/'' @ b)"
    using assms by (simp_all add: plain_char_def)
  show "ref_lookup (''heads/'' @ b) lines = Missing \<or> (\<exists>sha. ref_lookup (''heads/'' @ b) lines = Found sha)"
    unfolding ref_lookup_plain[OF h(1)] by (simp split: option.splits)
  show "ref_lookup (''tags/'' @ b) lines = Missing \<or> (\<exists>sha. ref_lookup (''tags/'' @ b) lines = Found sha)"
    unfolding ref_lookup_plain[OF h(2)] by (simp split: option.splits)
  show "ref_lookup (''remotes/(.+)/'' @ b) lines = Missing
          \<or> (\<exists>sha. ref_lookup (''remotes/(.+)/'' @ b) lines = Found sha)"
    unfolding ref_lookup_remote[OF assms] by (simp split: option.splits)
qed


lemma bare_candidates:
  "\<not> rx_test False full_path b \<Longrightarrow> \<not> rx_test False remote_short b \<Longrightarrow>
     candidates b = [''heads/'' @ b, ''remotes/(.+)/'' @ b, ''tags/'' @ b]"
  by (simp add: candidates_def)

lemma branch_call_spawn:
  assumes "checkCache (branchsCache s) (candidates b) = None" and "branchsQueue s b = None"
    and "b \<notin> set proto_props"
  shows "branch_call b cb s =
     ([BSpawn (bgitCommands s @ [''show-ref''])],
      s\<lparr>branchsQueue := (branchsQueue s)(b := Some (nextproc s)),
        barrays := (barrays s)(nextproc s := [cb]),
        procs := (procs s)(nextproc s := b),
        brunning := brunning s @ [nextproc s],
        nextproc := Suc (nextproc s)\<rparr>)"
  using assms by (simp add: branch_call_def)

lemma bgroup_first:
  assumes "branchsQueue s b = Some n" and "barrays s n = cb # q"
  shows "bgroup b err v after s =
     ([BCalled cb err v],
      s\<lparr>bloops := (b, Some n, err, v, after) # bloops s, barrays := (barrays s)(n := q)\<rparr>)"
  using assms by (simp add: bgroup_def bloop_def)

lemma branch_close_ok:
  assumes "n \<in> set (brunning s)" and "x = Some 0 \<or> x = None"
  shows "branch_close n x out errs s =
     scan (procs s n) (candidates (procs s n)) (concat out) (s\<lparr>brunning := remove1 n (brunning s)\<rparr>)"
  using assms by (auto simp: branch_close_def gitExec_close_def call_callback_def branch_lines_def)

lemma scan_first_found:
  assumes "\<And>key. key \<in> set keys \<Longrightarrow> ref_lookup key lines = Missing \<or> (\<exists>sha. ref_lookup key lines = Found sha)"
  shows "scan b keys lines s =
     (case first_found (\<lambda>key. ref_lookup key lines) keys of
        None \<Rightarrow> bgroup b (Some (JErr PlainError (''Invalid branch '' @ b) False)) JUndefined None s
      | Some (key, sha) \<Rightarrow> bcheckDone b key sha s)"
  using assms
proof (induction keys)
  case Nil
  show ?case by simp
next
  case (Cons key keys)
  from Cons.prems[of key] consider "ref_lookup key lines = Missing"
    | sha where "ref_lookup key lines = Found sha" by auto
  then show ?case
  proof cases
    case 1
    have "scan b keys lines s =
     (case first_found (\<lambda>key. ref_lookup key lines) keys of
        None \<Rightarrow> bgroup b (Some (JErr PlainError (''Invalid branch '' @ b) False)) JUndefined None s
      | Some (key, sha) \<Rightarrow> bcheckDone b key sha s)"
      by (rule Cons.IH) (simp add: Cons.prems)
    then show ?thesis by (simp add: 1)
  next
    case 2
    then show ?thesis by simp
  qed
qed

text \<open>
  Claim C6, as the code has it. Take a bare name, made of characters that stand for themselves
  in a pattern and not the name of a property of \<^verbatim>\<open>Object.prototype\<close>, and a call of
  \<^verbatim>\<open>getBranchSha\<close> that finds none of the three candidate keys in the cache and no lookup of
  the name in flight. The call runs \<^verbatim>\<open>git show-ref\<close>. When the subprocess closes without a
  nonzero exit status, the candidates \<^verbatim>\<open>heads/name\<close>, \<^verbatim>\<open>remotes/(.+)/name\<close> and \<^verbatim>\<open>tags/name\<close>
  are looked up in its output in this order: the caller receives the hash of the first one that
  finds a line, and that hash is stored under that candidate; when none finds a line the caller
  receives the error \<^verbatim>\<open>Invalid branch\<close> and nothing is stored. The witness is the name
  \<^verbatim>\<open>main\<close> with a tag and a branch of that name, the tag first in the output.
\<close>

theorem getBranchSha_candidate_order:
  assumes "\<not> rx_test False full_path b" and "\<not> rx_test False remote_short b"
    and "list_all plain_char b" and "b \<notin> set proto_props"
    and "checkCache (branchsCache s) (candidates b) = None" and "branchsQueue s b = None"
    and "s1 = snd (branch_step (BCall b cb) s)"
    and "x = Some 0 \<or> x = None"
    and "ff = first_found (\<lambda>key. ref_lookup key (concat out))
                [''heads/'' @ b, ''remotes/(.+)/'' @ b, ''tags/'' @ b]"
    and "s2 = snd (branch_step (BClose (nextproc s) x out errs) s1)"
  shows "fst (branch_step (BCall b cb) s) = [BSpawn (bgitCommands s @ [''show-ref''])]
     \<and> (\<forall>key sha. ff = Some (key, sha) \<longrightarrow>
           fst (branch_step (BClose (nextproc s) x out errs) s1) = [BCalled cb None sha]
           \<and> branchsCache s2 key = sha)
     \<and> (ff = None \<longrightarrow>
           fst (branch_step (BClose (nextproc s) x out errs) s1)
             = [BCalled cb (Some (JErr PlainError (''Invalid branch '' @ b) False)) JUndefined]
           \<and> branchsCache s2 = branchsCache s)"
proof -
  let ?n = "nextproc s"
  let ?keys = "[''heads/'' @ b, ''remotes/(.+)/'' @ b, ''tags/'' @ b]"
  note sp = branch_call_spawn[OF assms(5,6,4), of cb]
  have s1: "s1 = s\<lparr>branchsQueue := (branchsQueue s)(b := Some ?n),
        barrays := (barrays s)(?n := [cb]),
        procs := (procs s)(?n := b),
        brunning := brunning s @ [?n],
        nextproc := Suc ?n\<rparr>"
    using assms(7) by (simp add: sp)
  have c1: "fst (branch_step (BCall b cb) s) = [BSpawn (bgitCommands s @ [''show-ref''])]"
    by (simp add: sp)
  let ?s' = "s1\<lparr>brunning := remove1 ?n (brunning s1)\<rparr>"
  have m: "?n \<in> set (brunning s1)" and p: "procs s1 ?n = b" by (simp_all add: s1)
  have lk: "ref_lookup key (concat out) = Missing \<or> (\<exists>sha. ref_lookup key (concat out) = Found sha)"
    if "key \<in> set ?keys" for key
    using that ref_lookup_cases[OF assms(3), of "concat out"] by auto
  have cl: "branch_step (BClose ?n x out errs) s1 =
     (case ff of
        None \<Rightarrow> bgroup b (Some (JErr PlainError (''Invalid branch '' @ b) False)) JUndefined None ?s'
      | Some (key, sha) \<Rightarrow> bcheckDone b key sha ?s')"
    using scan_first_found[of ?keys "concat out" b ?s', OF lk]
    by (simp add: branch_close_ok[OF m assms(8)] p bare_candidates[OF assms(1,2)] assms(9))
  have q: "branchsQueue ?s' b = Some ?n" "barrays ?s' ?n = [cb]" by (simp_all add: s1)
  have c2: "fst (branch_step (BClose ?n x out errs) s1) = [BCalled cb None sha] \<and> branchsCache s2 key = sha"
    if "ff = Some (key, sha)" for key sha
  proof -
    let ?t = "?s'\<lparr>branchsCache := (branchsCache ?s')(key := sha)\<rparr>"
    have "branchsQueue ?t b = Some ?n" "barrays ?t ?n = [cb]" using q by simp_all
    from bgroup_first[OF this, of None sha "Some key"]
    have "branch_step (BClose ?n x out errs) s1
        = ([BCalled cb None sha],
           ?t\<lparr>bloops := (b, Some ?n, None, sha, Some key) # bloops ?t, barrays := (barrays ?t)(?n := [])\<rparr>)"
      unfolding cl that by (simp add: bcheckDone_def)
    then show ?thesis using assms(10) by simp
  qed
  have c3: "fst (branch_step (BClose ?n x out errs) s1)
             = [BCalled cb (Some (JErr PlainError (''Invalid branch '' @ b) False)) JUndefined]
           \<and> branchsCache s2 = branchsCache s"
    if "ff = None"
  proof -
    from bgroup_first[OF q, of "Some (JErr PlainError (''Invalid branch '' @ b) False)" JUndefined None]
    have "branch_step (BClose ?n x out errs) s1
        = ([BCalled cb (Some (JErr PlainError (''Invalid branch '' @ b) False)) JUndefined],
           ?s'\<lparr>bloops := (b, Some ?n, Some (JErr PlainError (''Invalid branch '' @ b) False), JUndefined, None) # bloops ?s',
                barrays := (barrays ?s')(?n := [])\<rparr>)"
      unfolding cl that by simp
    then show ?thesis using assms(10) by (simp add: s1)
  qed
  show ?thesis using c1 c2 c3 by blast
qed

theorem getBranchSha_candidate_order_witness:
  "fst (branch_run [BCall ''main'' 1, BClose 0 (Some 0)
          [''2222222222222222222222222222222222222222 refs/tags/main'' @ [CHR 0x0A],
           ''1111111111111111111111111111111111111111 refs/heads/main'' @ [CHR 0x0A]] []]
         (branch_init [''--git-dir=/r/.git'']))
     = [BSpawn [''--git-dir=/r/.git'', ''show-ref''],
        BCalled 1 None (JStr ''1111111111111111111111111111111111111111'')]"
proof -
  let ?out = "[''2222222222222222222222222222222222222222 refs/tags/main'' @ [CHR 0x0A],
           ''1111111111111111111111111111111111111111 refs/heads/main'' @ [CHR 0x0A]]"
  let ?s = "branch_init [''--git-dir=/r/.git'']"
  have h1: "\<not> rx_test False full_path ''main''" by (simp add: rx_eval full_path_def)
  have h2: "\<not> rx_test False remote_short ''main''" by (simp add: rx_eval remote_short_def name_char_def)
  have h3: "list_all plain_char ''main''" by (simp add: plain_char_def)
  have h4: "''main'' \<notin> set proto_props" by (simp add: proto_props_def)
  have h5: "checkCache (branchsCache ?s) (candidates ''main'') = None"
    by (simp add: bare_candidates[OF h1 h2] branch_init_def)
  have h6: "branchsQueue ?s ''main'' = None" by (simp add: branch_init_def)
  have h8: "Some (0::nat) = Some 0 \<or> Some (0::nat) = None" by simp
  have ff: "first_found (\<lambda>key. ref_lookup key (concat ?out))
                [''heads/'' @ ''main'', ''remotes/(.+)/'' @ ''main'', ''tags/'' @ ''main'']
      = Some (''heads/main'', JStr ''1111111111111111111111111111111111111111'')"
    by (simp add: ref_lookup_def rx_eval rep_numeral)
  have n: "nextproc ?s = 0" "bgitCommands ?s = [''--git-dir=/r/.git'']" by (simp_all add: branch_init_def)
  from getBranchSha_candidate_order[OF h1 h2 h3 h4 h5 h6 refl h8 refl refl, of 1 ?out "[]"]
  show ?thesis unfolding ff n by (simp add: split_beta)
qed

text \<open>
  Claim C6 as stated fails on the code: before anything else a call looks for a cached hash
  under the candidate keys, and takes the first one that is cached. After a lookup of
  \<^verbatim>\<open>tags/main\<close>, and for 100 ms, the bare name \<^verbatim>\<open>main\<close> is answered with the hash of the tag,
  although \<^verbatim>\<open>heads/main\<close> exists.
\<close>

theorem branch_cached_tag_counterexample:
  "fst (branch_run [BCall ''tags/main'' 1, BClose 0 (Some 0)
          [''1111111111111111111111111111111111111111 refs/heads/main'' @ [CHR 0x0A],
           ''2222222222222222222222222222222222222222 refs/tags/main'' @ [CHR 0x0A]] [],
          BReturn, BElapse 99, BCall ''main'' 2]
         (branch_init [''--git-dir=/r/.git'']))
     = [BSpawn [''--git-dir=/r/.git'', ''show-ref''],
        BCalled 1 None (JStr ''2222222222222222222222222222222222222222''),
        BCalled 2 None (JStr ''2222222222222222222222222222222222222222'')]"
  by (simp add: branch_eval rx_eval rep_numeral)

end
